theory Spec2Isabelle
  imports Main "HOL-Library.Word"
begin

section \<open>Message list model (core/messagesmodel.cpp)\<close>

subsection \<open>Cells, records and indexes\<close>

text \<open>
  A cell of the query result is a QVariant. The flag and id columns hold integers; text
  columns are carried as integer codes. \<open>Rendered v\<close> stands for the display text
  that the display role computes from the live cell \<open>v\<close> (the formatted creation date,
  the author name or a dash).
\<close>

datatype QVariant = Invalid | Value int | Rendered QVariant

fun toInt :: "QVariant \<Rightarrow> int" where
  "toInt (Value i) = i"
| "toInt _ = 0"

text \<open>
  Column positions, in the order in which \<open>setupHeaderData\<close> lists the columns
  (definitions/definitions.h is not part of the sources at hand).
\<close>

definition MSG_DB_ID_INDEX :: int where "MSG_DB_ID_INDEX = 0"
definition MSG_DB_READ_INDEX :: int where "MSG_DB_READ_INDEX = 1"
definition MSG_DB_DELETED_INDEX :: int where "MSG_DB_DELETED_INDEX = 2"
definition MSG_DB_IMPORTANT_INDEX :: int where "MSG_DB_IMPORTANT_INDEX = 3"
definition MSG_DB_AUTHOR_INDEX :: int where "MSG_DB_AUTHOR_INDEX = 7"
definition MSG_DB_DCREATED_INDEX :: int where "MSG_DB_DCREATED_INDEX = 8"
definition MSG_DB_PDELETED_INDEX :: int where "MSG_DB_PDELETED_INDEX = 10"
definition MSG_DB_COLUMN_COUNT :: int where "MSG_DB_COLUMN_COUNT = 16"

text \<open>A QSqlRecord is the list of the cells of one row, one cell per column.\<close>

type_synonym QSqlRecord = "QVariant list"

definition rec_value :: "QSqlRecord \<Rightarrow> int \<Rightarrow> QVariant" where
  "rec_value r c = (if 0 \<le> c \<and> c < int (length r) then r ! nat c else Invalid)"

text \<open>\<open>QSqlRecord::setValue\<close> does nothing when the record has no such field.\<close>

definition rec_setValue :: "int \<Rightarrow> QVariant \<Rightarrow> QSqlRecord \<Rightarrow> QSqlRecord" where
  "rec_setValue c v r = (if 0 \<le> c \<and> c < int (length r) then r[nat c := v] else r)"

text \<open>A QModelIndex is a (row, column) pair; the invalid index is \<open>(-1, -1)\<close>.\<close>

type_synonym QModelIndex = "int \<times> int"

definition invalid_index :: QModelIndex where
  "invalid_index = (-1, -1)"

datatype Role = DisplayRole | EditRole

datatype ReadStatus = Unread | Read

datatype Importance = NotImportant | Important

datatype RootItemKind = Root | Cattegory | Feeed | Bin

text \<open>
  Integer values of the enumerators (rootitem.h is not part of the sources at hand); the
  decoration role of \<open>data\<close> compares the read and important cells with 1.
\<close>

fun read_int :: "ReadStatus \<Rightarrow> int" where
  "read_int Unread = 0"
| "read_int Read = 1"

fun importance_int :: "Importance \<Rightarrow> int" where
  "importance_int NotImportant = 0"
| "importance_int Important = 1"

text \<open>
  What the model does to the outside, in program order: calls of the owning service's
  hooks, calls of DatabaseQueries, and writes to the pending-edit cache. Messages are
  passed by id.
\<close>

datatype event =
    CacheSetData int int QVariant
  | OnBeforeSetMessagesRead "int list" ReadStatus
  | OnAfterSetMessagesRead "int list" ReadStatus
  | OnBeforeSwitchMessageImportance "(int \<times> Importance) list"
  | OnAfterSwitchMessageImportance "(int \<times> Importance) list"
  | OnBeforeMessagesDelete "int list"
  | OnAfterMessagesDelete "int list"
  | OnBeforeMessagesRestoredFromBin "int list"
  | OnAfterMessagesRestoredFromBin "int list"
  | MarkMessagesReadUnread "int list" ReadStatus
  | MarkMessageImportant int Importance
  | SwitchMessagesImportance "int list"
  | DeleteOrRestoreMessagesToFromBin "int list" bool
  | PermanentlyDeleteMessages "int list"

fun is_cache_write :: "event \<Rightarrow> bool" where
  "is_cache_write (CacheSetData r c v) = True"
| "is_cache_write _ = False"

text \<open>
  The state of a MessagesModel: the pending-edit cache (row to record), the rows fetched by
  the last run of the query, the kind of the selected item (\<open>None\<close> is the null
  pointer) and the events so far.
\<close>

record MessagesModel =
  m_cache :: "int \<rightharpoonup> QSqlRecord"
  rows :: "QSqlRecord list"
  m_selectedItem :: "RootItemKind option"
  calls :: "event list"

text \<open>
  The outcomes of the collaborators during one operation: the before-hook, the
  DatabaseQueries call and the after-hook.
\<close>

record outcomes =
  before_ok :: bool
  db_ok :: bool
  after_ok :: bool

definition rowCount :: "MessagesModel \<Rightarrow> int" where
  "rowCount m = int (length (rows m))"

text \<open>\<open>QAbstractItemModel::index\<close>: the invalid index unless the position exists.\<close>

definition index :: "MessagesModel \<Rightarrow> int \<Rightarrow> int \<Rightarrow> QModelIndex" where
  "index m row column =
     (if 0 \<le> row \<and> row < rowCount m \<and> 0 \<le> column \<and> column < MSG_DB_COLUMN_COUNT
      then (row, column) else invalid_index)"

text \<open>\<open>QSqlQueryModel::data\<close>: the live cell, or the invalid variant outside the result.\<close>

definition QSqlQueryModel_data :: "MessagesModel \<Rightarrow> QModelIndex \<Rightarrow> QVariant" where
  "QSqlQueryModel_data m idx =
     (if 0 \<le> fst idx \<and> fst idx < rowCount m \<and> 0 \<le> snd idx \<and> snd idx < MSG_DB_COLUMN_COUNT
      then rec_value (rows m ! nat (fst idx)) (snd idx) else Invalid)"

text \<open>
  Modelled from the spec: MessagesModelCache (core/messagesmodelcache.h is not part of the
  sources at hand), "an overlay keyed by row": \<open>containsData\<close> tells whether a row has a
  cached record, \<open>data\<close> reads a cell of the cached record, \<open>setData\<close> caches the given
  record for a row that has none yet and then overwrites one cell, \<open>clear\<close> empties it.
\<close>

definition cache_containsData :: "MessagesModel \<Rightarrow> int \<Rightarrow> bool" where
  "cache_containsData m row = (m_cache m row \<noteq> None)"

definition cache_record :: "MessagesModel \<Rightarrow> int \<Rightarrow> QSqlRecord" where
  "cache_record m row = (case m_cache m row of Some r \<Rightarrow> r | None \<Rightarrow> [])"

definition cache_data :: "MessagesModel \<Rightarrow> QModelIndex \<Rightarrow> QVariant" where
  "cache_data m idx = rec_value (cache_record m (fst idx)) (snd idx)"

definition cache_setData ::
  "QModelIndex \<Rightarrow> QVariant \<Rightarrow> QSqlRecord \<Rightarrow> MessagesModel \<Rightarrow> MessagesModel" where
  "cache_setData idx v r m =
     (let old = (if cache_containsData m (fst idx) then cache_record m (fst idx) else r)
      in m\<lparr>m_cache := (m_cache m)(fst idx \<mapsto> rec_setValue (snd idx) v old),
            calls := calls m @ [CacheSetData (fst idx) (snd idx) v]\<rparr>)"

definition cache_clear :: "MessagesModel \<Rightarrow> MessagesModel" where
  "cache_clear m = m\<lparr>m_cache := Map.empty\<rparr>"

subsection \<open>Reading and writing cells\<close>

text \<open>
  \<open>MessagesModel::data\<close> for the display and edit roles. The display role never looks at
  the cache; the edit role does.
\<close>

definition data :: "MessagesModel \<Rightarrow> QModelIndex \<Rightarrow> Role \<Rightarrow> QVariant" where
  "data m idx role =
     (case role of
        DisplayRole \<Rightarrow>
          (if snd idx = MSG_DB_DCREATED_INDEX then Rendered (QSqlQueryModel_data m idx)
           else if snd idx = MSG_DB_AUTHOR_INDEX then Rendered (QSqlQueryModel_data m idx)
           else if snd idx \<noteq> MSG_DB_IMPORTANT_INDEX \<and> snd idx \<noteq> MSG_DB_READ_INDEX
           then QSqlQueryModel_data m idx
           else Invalid)
      | EditRole \<Rightarrow>
          (if cache_containsData m (fst idx) then cache_data m idx
           else QSqlQueryModel_data m idx))"

text \<open>\<open>data(row, column, role)\<close> goes through \<open>index\<close>.\<close>

definition data_at :: "MessagesModel \<Rightarrow> int \<Rightarrow> int \<Rightarrow> Role \<Rightarrow> QVariant" where
  "data_at m row column role = data m (index m row column) role"

text \<open>
  \<open>QSqlQueryModel::record(row)\<close>: the empty record of the query for a negative row,
  otherwise each field read through the (virtual) \<open>data\<close> in the edit role.
\<close>

definition record_at :: "MessagesModel \<Rightarrow> int \<Rightarrow> QSqlRecord" where
  "record_at m row =
     (if row < 0 then replicate (nat MSG_DB_COLUMN_COUNT) Invalid
      else map (\<lambda>c. data m (row, int c) EditRole) [0 ..< nat MSG_DB_COLUMN_COUNT])"

text \<open>\<open>MessagesModel::setData\<close> writes the cache and always reports success.\<close>

definition setData :: "QModelIndex \<Rightarrow> QVariant \<Rightarrow> MessagesModel \<Rightarrow> bool \<times> MessagesModel" where
  "setData idx v m = (True, cache_setData idx v (record_at m (fst idx)) m)"

text \<open>
  \<open>MessagesModel::repopulate\<close>: clears the cache and runs the query again; \<open>store\<close> is
  what the select statement yields from the database at that moment, fetched completely.
\<close>

definition repopulate :: "QSqlRecord list \<Rightarrow> MessagesModel \<Rightarrow> MessagesModel" where
  "repopulate store m = (cache_clear m)\<lparr>rows := store\<rparr>"

text \<open>\<open>messageAt\<close>, \<open>messageId\<close>, \<open>messageImportance\<close>; a message is its record.\<close>

definition messageAt :: "MessagesModel \<Rightarrow> int \<Rightarrow> QSqlRecord" where
  "messageAt m row_index =
     (if cache_containsData m row_index then cache_record m row_index
      else record_at m row_index)"

definition m_id :: "QSqlRecord \<Rightarrow> int" where
  "m_id msg = toInt (rec_value msg MSG_DB_ID_INDEX)"

definition messageId :: "MessagesModel \<Rightarrow> int \<Rightarrow> int" where
  "messageId m row_index = toInt (data_at m row_index MSG_DB_ID_INDEX EditRole)"

definition messageImportance :: "MessagesModel \<Rightarrow> int \<Rightarrow> Importance" where
  "messageImportance m row_index =
     (if toInt (data_at m row_index MSG_DB_IMPORTANT_INDEX EditRole) = 1
      then Important else NotImportant)"

definition emit :: "event \<Rightarrow> MessagesModel \<Rightarrow> MessagesModel" where
  "emit e m = m\<lparr>calls := calls m @ [e]\<rparr>"

subsection \<open>State changes of single messages\<close>

text \<open>
  The operations below return \<open>None\<close> where the source dereferences the null
  \<open>m_selectedItem\<close> (no item is loaded), and otherwise the reported result with the new
  state.
\<close>

definition setMessageRead ::
  "outcomes \<Rightarrow> int \<Rightarrow> ReadStatus \<Rightarrow> MessagesModel \<Rightarrow> (bool \<times> MessagesModel) option" where
  "setMessageRead oc row_index read m =
     (if toInt (data_at m row_index MSG_DB_READ_INDEX EditRole) = read_int read
      then Some (True, m)
      else
        let message = messageAt m row_index in
        (case m_selectedItem m of
           None \<Rightarrow> None
         | Some item \<Rightarrow>
             let m1 = emit (OnBeforeSetMessagesRead [m_id message] read) m in
             if \<not> before_ok oc then Some (False, m1)
             else
               let (working_change, m2) =
                     setData (index m1 row_index MSG_DB_READ_INDEX) (Value (read_int read)) m1
               in
               if \<not> working_change then Some (False, m2)
               else
                 let m3 = emit (MarkMessagesReadUnread [m_id message] read) m2 in
                 if db_ok oc
                 then Some (after_ok oc, emit (OnAfterSetMessagesRead [m_id message] read) m3)
                 else Some (False, m3)))"

definition switchMessageImportance ::
  "outcomes \<Rightarrow> int \<Rightarrow> MessagesModel \<Rightarrow> (bool \<times> MessagesModel) option" where
  "switchMessageImportance oc row_index m =
     (let target_index = index m row_index MSG_DB_IMPORTANT_INDEX;
          current_importance =
            (if toInt (data m target_index EditRole) = 1 then Important else NotImportant);
          next_importance =
            (if current_importance = Important then NotImportant else Important);
          message = messageAt m row_index;
          pair = (m_id message, next_importance)
      in
      (case m_selectedItem m of
         None \<Rightarrow> None
       | Some item \<Rightarrow>
           let m1 = emit (OnBeforeSwitchMessageImportance [pair]) m in
           if \<not> before_ok oc then Some (False, m1)
           else
             let (working_change, m2) =
                   setData target_index (Value (importance_int next_importance)) m1
             in
             if \<not> working_change then Some (False, m2)
             else
               let m3 = emit (MarkMessageImportant (m_id message) next_importance) m2 in
               if db_ok oc
               then Some (after_ok oc, emit (OnAfterSwitchMessageImportance [pair]) m3)
               else Some (False, m3)))"

subsection \<open>Lookup by message id\<close>

text \<open>
  The loops of \<open>setMessageReadById\<close> and \<open>setMessageImportantById\<close>, from row \<open>i\<close> on.
\<close>

function setMessageReadById_from ::
  "int \<Rightarrow> int \<Rightarrow> ReadStatus \<Rightarrow> MessagesModel \<Rightarrow> bool \<times> MessagesModel" where
  "setMessageReadById_from i ident read m =
     (if i < rowCount m then
        (let found_id = toInt (data_at m i MSG_DB_ID_INDEX EditRole) in
         if found_id = ident
         then setData (index m i MSG_DB_READ_INDEX) (Value (read_int read)) m
         else setMessageReadById_from (i + 1) ident read m)
      else (False, m))"
  by pat_completeness auto
termination
  by (relation "measure (\<lambda>(i, ident, read, m). nat (rowCount m - i))") auto

definition setMessageReadById ::
  "int \<Rightarrow> ReadStatus \<Rightarrow> MessagesModel \<Rightarrow> bool \<times> MessagesModel" where
  "setMessageReadById ident read m = setMessageReadById_from 0 ident read m"

function setMessageImportantById_from ::
  "int \<Rightarrow> int \<Rightarrow> Importance \<Rightarrow> MessagesModel \<Rightarrow> bool \<times> MessagesModel" where
  "setMessageImportantById_from i ident important m =
     (if i < rowCount m then
        (let found_id = toInt (data_at m i MSG_DB_ID_INDEX EditRole) in
         if found_id = ident
         then setData (index m i MSG_DB_IMPORTANT_INDEX) (Value (importance_int important)) m
         else setMessageImportantById_from (i + 1) ident important m)
      else (False, m))"
  by pat_completeness auto
termination
  by (relation "measure (\<lambda>(i, ident, important, m). nat (rowCount m - i))") auto

definition setMessageImportantById ::
  "int \<Rightarrow> Importance \<Rightarrow> MessagesModel \<Rightarrow> bool \<times> MessagesModel" where
  "setMessageImportantById ident important m = setMessageImportantById_from 0 ident important m"

subsection \<open>Batch operations\<close>

text \<open>
  The first loop of each batch operation: for every selected index, in order, the message
  is read with \<open>messageAt\<close>, appended to the list for the hooks and the database, and the
  cache is written. The accumulated lists are returned with the new state.
\<close>

fun collect_read ::
  "ReadStatus \<Rightarrow> QModelIndex list \<Rightarrow> int list \<Rightarrow> MessagesModel \<Rightarrow> int list \<times> MessagesModel" where
  "collect_read read [] message_ids m = (message_ids, m)"
| "collect_read read (message # messages) message_ids m =
     (let msg = messageAt m (fst message);
          m1 = snd (setData (index m (fst message) MSG_DB_READ_INDEX) (Value (read_int read)) m)
      in collect_read read messages (message_ids @ [m_id msg]) m1)"

fun collect_importance ::
  "QModelIndex list \<Rightarrow> (int \<times> Importance) list \<Rightarrow> MessagesModel
     \<Rightarrow> (int \<times> Importance) list \<times> MessagesModel" where
  "collect_importance [] message_states m = (message_states, m)"
| "collect_importance (message # messages) message_states m =
     (let msg = messageAt m (fst message);
          message_importance = messageImportance m (fst message);
          next_importance =
            (if message_importance = Important then NotImportant else Important);
          idx_msg_imp = index m (fst message) MSG_DB_IMPORTANT_INDEX;
          m1 = snd (setData idx_msg_imp (Value (importance_int next_importance)) m)
      in collect_importance messages (message_states @ [(m_id msg, next_importance)]) m1)"

text \<open>
  Modelled from the spec: \<open>qobject_cast<RecycleBin*>(m_selectedItem)\<close> succeeds exactly
  for the node of kind Bin (the class RecycleBin is not part of the sources at hand; the
  spec knows the recycle bin as one of the four node kinds).
\<close>

definition is_RecycleBin :: "RootItemKind option \<Rightarrow> bool" where
  "is_RecycleBin item = (item = Some Bin)"

fun collect_deleted ::
  "QModelIndex list \<Rightarrow> int list \<Rightarrow> MessagesModel \<Rightarrow> int list \<times> MessagesModel" where
  "collect_deleted [] message_ids m = (message_ids, m)"
| "collect_deleted (message # messages) message_ids m =
     (let msg = messageAt m (fst message);
          m1 = (if is_RecycleBin (m_selectedItem m)
                then snd (setData (index m (fst message) MSG_DB_PDELETED_INDEX) (Value 1) m)
                else snd (setData (index m (fst message) MSG_DB_DELETED_INDEX) (Value 1) m))
      in collect_deleted messages (message_ids @ [m_id msg]) m1)"

fun collect_restored ::
  "QModelIndex list \<Rightarrow> int list \<Rightarrow> MessagesModel \<Rightarrow> int list \<times> MessagesModel" where
  "collect_restored [] message_ids m = (message_ids, m)"
| "collect_restored (message # messages) message_ids m =
     (let msg = messageAt m (fst message);
          m1 = snd (setData (index m (fst message) MSG_DB_PDELETED_INDEX) (Value 0) m);
          m2 = snd (setData (index m1 (fst message) MSG_DB_DELETED_INDEX) (Value 0) m1)
      in collect_restored messages (message_ids @ [m_id msg]) m2)"

text \<open>
  The common tail of the batch operations: before-hook, database call, after-hook.
\<close>

definition hook_persist_hook ::
  "outcomes \<Rightarrow> event \<Rightarrow> event \<Rightarrow> event \<Rightarrow> MessagesModel \<Rightarrow> (bool \<times> MessagesModel) option" where
  "hook_persist_hook oc before_call db_call after_call m =
     (case m_selectedItem m of
        None \<Rightarrow> None
      | Some item \<Rightarrow>
          let m1 = emit before_call m in
          if \<not> before_ok oc then Some (False, m1)
          else
            let m2 = emit db_call m1 in
            if db_ok oc then Some (after_ok oc, emit after_call m2)
            else Some (False, m2))"

definition setBatchMessagesRead ::
  "outcomes \<Rightarrow> QModelIndex list \<Rightarrow> ReadStatus \<Rightarrow> MessagesModel
     \<Rightarrow> (bool \<times> MessagesModel) option" where
  "setBatchMessagesRead oc messages read m =
     (let (message_ids, m1) = collect_read read messages [] m in
      hook_persist_hook oc
        (OnBeforeSetMessagesRead message_ids read)
        (MarkMessagesReadUnread message_ids read)
        (OnAfterSetMessagesRead message_ids read) m1)"

definition switchBatchMessageImportance ::
  "outcomes \<Rightarrow> QModelIndex list \<Rightarrow> MessagesModel \<Rightarrow> (bool \<times> MessagesModel) option" where
  "switchBatchMessageImportance oc messages m =
     (let (message_states, m1) = collect_importance messages [] m in
      hook_persist_hook oc
        (OnBeforeSwitchMessageImportance message_states)
        (SwitchMessagesImportance (map fst message_states))
        (OnAfterSwitchMessageImportance message_states) m1)"

definition setBatchMessagesDeleted ::
  "outcomes \<Rightarrow> QModelIndex list \<Rightarrow> MessagesModel \<Rightarrow> (bool \<times> MessagesModel) option" where
  "setBatchMessagesDeleted oc messages m =
     (let (message_ids, m1) = collect_deleted messages [] m in
      hook_persist_hook oc
        (OnBeforeMessagesDelete message_ids)
        (if m_selectedItem m1 \<noteq> Some Bin
         then DeleteOrRestoreMessagesToFromBin message_ids True
         else PermanentlyDeleteMessages message_ids)
        (OnAfterMessagesDelete message_ids) m1)"

definition setBatchMessagesRestored ::
  "outcomes \<Rightarrow> QModelIndex list \<Rightarrow> MessagesModel \<Rightarrow> (bool \<times> MessagesModel) option" where
  "setBatchMessagesRestored oc messages m =
     (let (message_ids, m1) = collect_restored messages [] m in
      hook_persist_hook oc
        (OnBeforeMessagesRestoredFromBin message_ids)
        (DeleteOrRestoreMessagesToFromBin message_ids False)
        (OnAfterMessagesRestoredFromBin message_ids) m1)"

subsection \<open>Predicates and examples used in the statements\<close>

text \<open>
  Every cached record has one cell per column. The cache starts empty and \<open>setData\<close>
  only stores records that \<open>record_at\<close> produced, so every reachable state satisfies it.
\<close>

definition cache_ok :: "MessagesModel \<Rightarrow> bool" where
  "cache_ok m = (\<forall>r \<in> ran (m_cache m). length r = nat MSG_DB_COLUMN_COUNT)"

text \<open>
  From \<open>m\<close> to \<open>m'\<close> nothing happened but \<open>n\<close> cache writes: the fetched rows and the
  selected item are the same, and no hook or database call was added.
\<close>

definition only_cache_writes :: "MessagesModel \<Rightarrow> MessagesModel \<Rightarrow> nat \<Rightarrow> bool" where
  "only_cache_writes m m' n =
     (rows m' = rows m \<and> m_selectedItem m' = m_selectedItem m \<and>
      (\<exists>ws. calls m' = calls m @ ws \<and> (\<forall>e\<in>set ws. is_cache_write e) \<and> length ws = n))"

definition flip_importance :: "Importance \<Rightarrow> Importance" where
  "flip_importance i = (if i = Important then NotImportant else Important)"

text \<open>
  Two fetched messages with ids 7 and 9, unread, not deleted, not important, nothing cached;
  once loaded from a feed and once from the recycle bin. Collaborators that accept
  everything, and a before-hook that rejects.
\<close>

definition example_model :: MessagesModel where
  "example_model =
     \<lparr>m_cache = Map.empty,
      rows = [Value 7 # replicate 15 (Value 0), Value 9 # replicate 15 (Value 0)],
      m_selectedItem = Some Feeed, calls = []\<rparr>"

definition example_bin_model :: MessagesModel where
  "example_bin_model = example_model\<lparr>m_selectedItem := Some Bin\<rparr>"

definition rejecting :: outcomes where
  "rejecting = \<lparr>before_ok = False, db_ok = True, after_ok = True\<rparr>"

definition accepting :: outcomes where
  "accepting = \<lparr>before_ok = True, db_ok = True, after_ok = True\<rparr>"

text \<open>
  The ids of the messages at the selected indexes, in the order of the selection, and the
  cache write that \<open>setData(index(message.row(), column), v)\<close> makes.
\<close>

definition selected_ids :: "MessagesModel \<Rightarrow> QModelIndex list \<Rightarrow> int list" where
  "selected_ids m messages = map (\<lambda>message. m_id (messageAt m (fst message))) messages"

definition cache_write :: "MessagesModel \<Rightarrow> int \<Rightarrow> QVariant \<Rightarrow> QModelIndex \<Rightarrow> event" where
  "cache_write m column v message =
     CacheSetData (fst (index m (fst message) column)) (snd (index m (fst message) column)) v"

text \<open>
  Two messages fetched from the recycle bin, soft-deleted in the store; row 0 has a cached
  record in which it is permanently deleted as well.
\<close>

definition example_binned_model :: MessagesModel where
  "example_binned_model =
     \<lparr>m_cache = [0 \<mapsto> (Value 7 # replicate 15 (Value 0))[2 := Value 1, 10 := Value 1]],
      rows = [(Value 7 # replicate 15 (Value 0))[2 := Value 1],
              (Value 9 # replicate 15 (Value 0))[2 := Value 1]],
      m_selectedItem = Some Bin, calls = []\<rparr>"

section \<open>Feed tree model (core/feedsmodel.cpp)\<close>

subsection \<open>Bulk updates of the message store\<close>

text \<open>
  \<open>markFeedsRead\<close> and \<open>markFeedsDeleted\<close> talk to the database only. What each call
  on the connection and the query returns is an input of the model; the calls made are
  logged in order. \<open>rollback_ok\<close> is what \<open>rollback()\<close> returns when it is called after
  a failed commit (the result of the earlier rollbacks is discarded by the source).
\<close>

record db_outcomes =
  transaction_ok :: bool
  prepare_ok :: bool
  exec_ok :: bool
  commit_ok :: bool
  rollback_ok :: bool

datatype statement =
    UpdateRead "int list"
  | UpdateDeletedOfRead "int list"
  | UpdateDeleted "int list"

datatype db_call = Transaction | Prepare statement | BindValue int | Exec | Commit | Rollback

text \<open>
  The tail shared by both functions, from \<open>bindValue\<close> on: a failed \<open>exec\<close> rolls back
  and then falls through to the commit.
\<close>

definition bind_exec_commit :: "db_outcomes \<Rightarrow> int \<Rightarrow> db_call list \<Rightarrow> bool \<times> db_call list" where
  "bind_exec_commit db v done =
     (let done1 = done @ [BindValue v, Exec];
          done2 = (if \<not> exec_ok db then done1 @ [Rollback] else done1)
      in if commit_ok db then (True, done2 @ [Commit])
         else (rollback_ok db, done2 @ [Commit, Rollback]))"

definition markFeedsRead :: "db_outcomes \<Rightarrow> int list \<Rightarrow> int \<Rightarrow> bool \<times> db_call list" where
  "markFeedsRead db feeds read =
     (if \<not> transaction_ok db then (False, [Transaction])
      else if \<not> prepare_ok db
      then (False, [Transaction, Prepare (UpdateRead feeds), Rollback])
      else bind_exec_commit db read [Transaction, Prepare (UpdateRead feeds)])"

definition markFeedsDeleted ::
  "db_outcomes \<Rightarrow> int list \<Rightarrow> int \<Rightarrow> bool \<Rightarrow> bool \<times> db_call list" where
  "markFeedsDeleted db feeds deleted read_only =
     (if \<not> transaction_ok db then (False, [Transaction])
      else if read_only then
        (if \<not> prepare_ok db
         then (False, [Transaction, Prepare (UpdateDeletedOfRead feeds), Rollback])
         else bind_exec_commit db deleted [Transaction, Prepare (UpdateDeletedOfRead feeds)])
      else
        (if \<not> prepare_ok db
         then (False, [Transaction, Prepare (UpdateDeleted feeds), Rollback])
         else bind_exec_commit db deleted [Transaction, Prepare (UpdateDeleted feeds)]))"

subsection \<open>Items and the heap\<close>

text \<open>
  Items are objects on the heap, referred to by pointers. The heap gives the content of
  every pointer; \<open>allocated\<close> tells which pointers are live. The entry of a deleted object
  stays in the heap, but reading it is undefined behaviour in the source; where the source
  reads an object it has deleted, the operation ends in a fault instead of a result.
\<close>

type_synonym ptr = nat

datatype AutoUpdateType =
  DontAutoUpdate | DefaultAutoUpdate | SpecificAutoUpdate | OtherAutoUpdate

record RootItem =
  kind :: RootItemKind
  item_id :: int
  title :: string
  childItems :: "ptr list"
  parent :: "ptr option"
  autoUpdateType :: AutoUpdateType
  autoUpdateInitialInterval :: "32 word"
  autoUpdateRemainingInterval :: "32 word"

datatype notification =
    BeginRemoveRows ptr int | EndRemoveRows
  | BeginInsertRows ptr int | EndInsertRows

record FeedsModel =
  heap :: "ptr \<Rightarrow> RootItem"
  allocated :: "ptr set"
  next_ptr :: ptr
  m_rootItem :: ptr
  m_recycleBin :: ptr
  notifications :: "notification list"

text \<open>
  Modelled from the spec: the operations of RootItem (core/rootitem.cpp is not part of the
  sources at hand). \<open>appendChild\<close> "adds to end of child sequence; sets back-reference";
  \<open>removeChild\<close> "removes by identity from child sequence; does not destroy memory";
  \<open>child(kind, title)\<close> finds the first child of that kind and title;
  \<open>getRecursiveChildren\<close> is "the flattened descendant list in pre-order".
\<close>

definition appendChild :: "ptr \<Rightarrow> ptr \<Rightarrow> (ptr \<Rightarrow> RootItem) \<Rightarrow> (ptr \<Rightarrow> RootItem)" where
  "appendChild this child h =
     (let h1 = h(this := (h this)\<lparr>childItems := childItems (h this) @ [child]\<rparr>)
      in h1(child := (h1 child)\<lparr>parent := Some this\<rparr>))"

definition removeChild :: "ptr \<Rightarrow> ptr \<Rightarrow> (ptr \<Rightarrow> RootItem) \<Rightarrow> (ptr \<Rightarrow> RootItem)" where
  "removeChild this child h =
     h(this := (h this)\<lparr>childItems := remove1 child (childItems (h this))\<rparr>)"

definition clearChildren :: "ptr \<Rightarrow> (ptr \<Rightarrow> RootItem) \<Rightarrow> (ptr \<Rightarrow> RootItem)" where
  "clearChildren this h = h(this := (h this)\<lparr>childItems := []\<rparr>)"

definition childCount :: "(ptr \<Rightarrow> RootItem) \<Rightarrow> ptr \<Rightarrow> int" where
  "childCount h this = int (length (childItems (h this)))"

definition child_by_title ::
  "(ptr \<Rightarrow> RootItem) \<Rightarrow> ptr \<Rightarrow> RootItemKind \<Rightarrow> string \<Rightarrow> ptr option" where
  "child_by_title h this k t =
     find (\<lambda>c. kind (h c) = k \<and> title (h c) = t) (childItems (h this))"

text \<open>\<open>QList::indexOf\<close>: the position of the first occurrence, or -1.\<close>

fun indexOf :: "'a list \<Rightarrow> 'a \<Rightarrow> int" where
  "indexOf [] x = -1"
| "indexOf (y # ys) x = (if y = x then 0 else (let i = indexOf ys x in if i < 0 then -1 else i + 1))"

text \<open>
  The item \<open>p\<close> followed by its descendants in pre-order, down to depth \<open>n\<close>. The depth
  used is \<open>next_ptr\<close>: a chain of distinct pointers handed out so far is not longer.
\<close>

fun subtree :: "nat \<Rightarrow> (ptr \<Rightarrow> RootItem) \<Rightarrow> ptr \<Rightarrow> ptr list" where
  "subtree 0 h p = [p]"
| "subtree (Suc n) h p = p # concat (map (subtree n h) (childItems (h p)))"

definition getRecursiveChildren :: "FeedsModel \<Rightarrow> ptr \<Rightarrow> ptr list" where
  "getRecursiveChildren st p = tl (subtree (next_ptr st) (heap st) p)"

text \<open>
  Modelled from the spec: \<open>delete item\<close>; "destroying a node destroys its subtree".
\<close>

definition delete_item :: "ptr \<Rightarrow> FeedsModel \<Rightarrow> FeedsModel" where
  "delete_item p st =
     st\<lparr>allocated := allocated st - set (subtree (next_ptr st) (heap st) p)\<rparr>"

definition notify :: "notification \<Rightarrow> FeedsModel \<Rightarrow> FeedsModel" where
  "notify n st = st\<lparr>notifications := notifications st @ [n]\<rparr>"

subsection \<open>Structural mutations\<close>

text \<open>
  \<open>removeItem\<close>. A valid index is \<open>Some\<close> of the item it points to, the invalid index is
  \<open>None\<close>. \<open>removeItself_ok\<close> is what \<open>deleting_item->removeItself()\<close> returns (the
  persistent deletion is not part of the sources at hand). The result is \<open>None\<close> where the
  source calls \<open>removeChild\<close> on a null parent.
\<close>

definition removeItem ::
  "bool \<Rightarrow> ptr option \<Rightarrow> FeedsModel \<Rightarrow> (bool \<times> FeedsModel) option" where
  "removeItem removeItself_ok idx st =
     (case idx of
        None \<Rightarrow> Some (False, st)
      | Some deleting_item \<Rightarrow>
          if removeItself_ok then
            (case parent (heap st deleting_item) of
               None \<Rightarrow> None
             | Some parent_item \<Rightarrow>
                 let row = indexOf (childItems (heap st parent_item)) deleting_item;
                     st1 = notify (BeginRemoveRows parent_item row) st;
                     st2 = st1\<lparr>heap := removeChild parent_item deleting_item (heap st1)\<rparr>;
                     st3 = notify EndRemoveRows st2
                 in Some (True, delete_item deleting_item st3))
          else Some (False, st))"

text \<open>
  \<open>addCategory\<close> and \<open>addFeed\<close>; \<open>addItself_ok\<close> is what \<open>addItself(parent)\<close> returns.
\<close>

definition addCategory :: "bool \<Rightarrow> ptr \<Rightarrow> ptr \<Rightarrow> FeedsModel \<Rightarrow> bool \<times> FeedsModel" where
  "addCategory addItself_ok category parent_item st =
     (let result = addItself_ok in
      if result then
        (let st1 = notify (BeginInsertRows parent_item (childCount (heap st) parent_item)) st;
             st2 = st1\<lparr>heap := appendChild parent_item category (heap st1)\<rparr>
         in (result, notify EndInsertRows st2))
      else (result, delete_item category st))"

definition addFeed :: "bool \<Rightarrow> ptr \<Rightarrow> ptr \<Rightarrow> FeedsModel \<Rightarrow> bool \<times> FeedsModel" where
  "addFeed addItself_ok feed parent_item st =
     (let result = addItself_ok in
      if result then
        (let st1 = notify (BeginInsertRows parent_item (childCount (heap st) parent_item)) st;
             st2 = st1\<lparr>heap := appendChild parent_item feed (heap st1)\<rparr>
         in (result, notify EndInsertRows st2))
      else (result, delete_item feed st))"

text \<open>
  \<open>reassignNodeToNewParent\<close>; \<open>None\<close> where the source dereferences a null original
  parent.
\<close>

definition reassignNodeToNewParent :: "ptr \<Rightarrow> ptr \<Rightarrow> FeedsModel \<Rightarrow> FeedsModel option" where
  "reassignNodeToNewParent original_node new_parent st =
     (let original_parent = parent (heap st original_node) in
      if original_parent \<noteq> Some new_parent then
        (case original_parent of
           None \<Rightarrow> None
         | Some op \<Rightarrow>
             let original_index_of_feed = indexOf (childItems (heap st op)) original_node;
                 new_index_of_feed = childCount (heap st) new_parent;
                 st1 = notify (BeginRemoveRows op original_index_of_feed) st;
                 st2 = st1\<lparr>heap := removeChild op original_node (heap st1)\<rparr>;
                 st3 = notify EndRemoveRows st2;
                 st4 = notify (BeginInsertRows new_parent new_index_of_feed) st3;
                 st5 = st4\<lparr>heap := appendChild new_parent original_node (heap st4)\<rparr>
             in Some (notify EndInsertRows st5))
      else Some st)"

subsection \<open>Scheduled updates\<close>

text \<open>\<open>feedsForItem\<close> and \<open>allFeeds\<close>.\<close>

definition feedsForItem :: "FeedsModel \<Rightarrow> ptr \<Rightarrow> ptr list" where
  "feedsForItem st root =
     filter (\<lambda>child. kind (heap st child) = Feeed) (getRecursiveChildren st root)"

definition allFeeds :: "FeedsModel \<Rightarrow> ptr list" where
  "allFeeds st = feedsForItem st (m_rootItem st)"

text \<open>
  The loop of \<open>feedsForScheduledUpdate\<close> over the feeds still to visit. The intervals are
  C++ \<open>int\<close>s: 32-bit words compared as signed numbers; the decrement wraps around.
\<close>

fun feedsForScheduledUpdate_loop ::
  "bool \<Rightarrow> ptr list \<Rightarrow> ptr list \<Rightarrow> (ptr \<Rightarrow> RootItem) \<Rightarrow> ptr list \<times> (ptr \<Rightarrow> RootItem)" where
  "feedsForScheduledUpdate_loop auto_update_now [] feeds_for_update h = (feeds_for_update, h)"
| "feedsForScheduledUpdate_loop auto_update_now (feed # feeds) feeds_for_update h =
     (case autoUpdateType (h feed) of
        DontAutoUpdate \<Rightarrow> feedsForScheduledUpdate_loop auto_update_now feeds feeds_for_update h
      | DefaultAutoUpdate \<Rightarrow>
          feedsForScheduledUpdate_loop auto_update_now feeds
            (if auto_update_now then feeds_for_update @ [feed] else feeds_for_update) h
      | _ \<Rightarrow>
          (let remaining_interval = autoUpdateRemainingInterval (h feed) - 1 in
           if sint remaining_interval \<le> 0
           then feedsForScheduledUpdate_loop auto_update_now feeds (feeds_for_update @ [feed])
                  (h(feed := (h feed)\<lparr>autoUpdateRemainingInterval :=
                                          autoUpdateInitialInterval (h feed)\<rparr>))
           else feedsForScheduledUpdate_loop auto_update_now feeds feeds_for_update
                  (h(feed := (h feed)\<lparr>autoUpdateRemainingInterval := remaining_interval\<rparr>))))"

definition feedsForScheduledUpdate :: "bool \<Rightarrow> FeedsModel \<Rightarrow> ptr list \<times> FeedsModel" where
  "feedsForScheduledUpdate auto_update_now st =
     (let (feeds_for_update, h) =
            feedsForScheduledUpdate_loop auto_update_now (allFeeds st) [] (heap st)
      in (feeds_for_update, st\<lparr>heap := h\<rparr>))"


subsection \<open>Loading the tree from the database\<close>

text \<open>
  \<open>NO_PARENT_CATEGORY\<close> is the id of the root item (definitions/definitions.h is not part
  of the sources at hand; the value is the customary -1, any value would do).
\<close>

definition NO_PARENT_CATEGORY :: int where
  "NO_PARENT_CATEGORY = -1"

text \<open>\<open>new\<close>: the next pointer is handed out and holds the given content.\<close>

definition new_item :: "RootItem \<Rightarrow> FeedsModel \<Rightarrow> ptr \<times> FeedsModel" where
  "new_item content st =
     (next_ptr st,
      st\<lparr>heap := (heap st)(next_ptr st := content),
         allocated := insert (next_ptr st) (allocated st),
         next_ptr := Suc (next_ptr st)\<rparr>)"

text \<open>\<open>QList::removeAt\<close>.\<close>

definition removeAt :: "nat \<Rightarrow> 'a list \<Rightarrow> 'a list" where
  "removeAt i xs = take i xs @ drop (Suc i) xs"

text \<open>
  The \<open>for\<close> loop of \<open>assembleCategories\<close>, from index \<open>i\<close> on. After an entry was
  attached and removed, the source decrements \<open>i\<close> and the loop header increments it
  again, so the scan goes on at the same index.
\<close>

function assembleCategories_for ::
  "nat \<Rightarrow> (int \<times> ptr) list \<Rightarrow> (int \<rightharpoonup> ptr) \<Rightarrow> (ptr \<Rightarrow> RootItem)
     \<Rightarrow> (int \<times> ptr) list \<times> (int \<rightharpoonup> ptr) \<times> (ptr \<Rightarrow> RootItem)" where
  "assembleCategories_for i categories assignments h =
     (if i < length categories then
        (case assignments (fst (categories ! i)) of
           Some parent_item \<Rightarrow>
             (let h1 = appendChild parent_item (snd (categories ! i)) h;
                  assignments1 =
                    assignments(item_id (h1 (snd (categories ! i))) \<mapsto> snd (categories ! i))
              in assembleCategories_for i (removeAt i categories) assignments1 h1)
         | None \<Rightarrow> assembleCategories_for (i + 1) categories assignments h)
      else (categories, assignments, h))"
  by pat_completeness auto
termination
  by (relation "measure (\<lambda>(i, categories, assignments, h). 2 * length categories - i)")
     (auto simp: removeAt_def)

declare assembleCategories_for.simps [simp del]

text \<open>
  The \<open>while\<close> loop of \<open>assembleCategories\<close>: it goes on as long as the list is not
  empty. \<open>None\<close> means that the loop never ends.
\<close>

partial_function (option) assembleCategories_while ::
  "(int \<times> ptr) list \<Rightarrow> (int \<rightharpoonup> ptr) \<Rightarrow> (ptr \<Rightarrow> RootItem) \<Rightarrow> (ptr \<Rightarrow> RootItem) option" where
  "assembleCategories_while categories assignments h =
     (if categories \<noteq> [] then
        (case assembleCategories_for 0 categories assignments h of
           (categories1, assignments1, h1) \<Rightarrow>
             assembleCategories_while categories1 assignments1 h1)
      else Some h)"

definition assembleCategories :: "(int \<times> ptr) list \<Rightarrow> FeedsModel \<Rightarrow> FeedsModel option" where
  "assembleCategories categories st =
     map_option (\<lambda>h. st\<lparr>heap := h\<rparr>)
       (assembleCategories_while categories
          [NO_PARENT_CATEGORY \<mapsto> m_rootItem st] (heap st))"

text \<open>
  \<open>categoriesForItem\<close>: the work list \<open>parents\<close> is taken from the front, categories are
  entered under their id unless the id is there already, and their children are queued.
  \<open>None\<close> means that the loop never ends (a cycle of categories).
\<close>

partial_function (option) categoriesForItem_while ::
  "ptr list \<Rightarrow> (int \<rightharpoonup> ptr) \<Rightarrow> (ptr \<Rightarrow> RootItem) \<Rightarrow> (int \<rightharpoonup> ptr) option" where
  "categoriesForItem_while parents categories h =
     (case parents of
        [] \<Rightarrow> Some categories
      | item # rest \<Rightarrow>
          if kind (h item) = Cattegory then
            categoriesForItem_while (rest @ childItems (h item))
              (if categories (item_id (h item)) = None
               then categories(item_id (h item) \<mapsto> item) else categories) h
          else categoriesForItem_while rest categories h)"

definition categoriesForItem :: "FeedsModel \<Rightarrow> ptr \<Rightarrow> (int \<rightharpoonup> ptr) option" where
  "categoriesForItem st root =
     categoriesForItem_while (childItems (heap st root)) Map.empty (heap st)"

definition allCategories :: "FeedsModel \<Rightarrow> (int \<rightharpoonup> ptr) option" where
  "allCategories st = categoriesForItem st (m_rootItem st)"

fun assembleFeeds_loop ::
  "(int \<rightharpoonup> ptr) \<Rightarrow> ptr \<Rightarrow> (int \<times> ptr) list \<Rightarrow> (ptr \<Rightarrow> RootItem) \<Rightarrow> (ptr \<Rightarrow> RootItem)" where
  "assembleFeeds_loop categories root [] h = h"
| "assembleFeeds_loop categories root (feed # feeds) h =
     (if fst feed = NO_PARENT_CATEGORY
      then assembleFeeds_loop categories root feeds (appendChild root (snd feed) h)
      else (case categories (fst feed) of
              Some category \<Rightarrow>
                assembleFeeds_loop categories root feeds (appendChild category (snd feed) h)
            | None \<Rightarrow> assembleFeeds_loop categories root feeds h))"

definition assembleFeeds :: "(int \<times> ptr) list \<Rightarrow> FeedsModel \<Rightarrow> FeedsModel option" where
  "assembleFeeds feeds st =
     map_option
       (\<lambda>categories. st\<lparr>heap := assembleFeeds_loop categories (m_rootItem st) feeds (heap st)\<rparr>)
       (allCategories st)"

text \<open>
  The rows that the two queries of \<open>loadFromDatabase\<close> yield. A category row is its
  parent id and the item that the constructor of StandardCategory builds from the record;
  a feed row is its category id, its type and the item built by StandardFeed. \<open>None\<close>
  for a list of rows means that the query failed.
\<close>

datatype FeedType = Atom10 | Rdf | Rss0X | Rss2X | OtherFeedType

type_synonym category_row = "int \<times> RootItem"
type_synonym feed_row = "int \<times> FeedType \<times> RootItem"

fun load_categories ::
  "category_row list \<Rightarrow> (int \<times> ptr) list \<Rightarrow> FeedsModel \<Rightarrow> (int \<times> ptr) list \<times> FeedsModel" where
  "load_categories [] categories st = (categories, st)"
| "load_categories (row # rest) categories st =
     (case new_item ((snd row)\<lparr>kind := Cattegory, childItems := [], parent := None\<rparr>) st of
        (p, st1) \<Rightarrow> load_categories rest (categories @ [(fst row, p)]) st1)"

fun load_feeds ::
  "feed_row list \<Rightarrow> (int \<times> ptr) list \<Rightarrow> FeedsModel \<Rightarrow> (int \<times> ptr) list \<times> FeedsModel" where
  "load_feeds [] feeds st = (feeds, st)"
| "load_feeds (row # rest) feeds st =
     (case fst (snd row) of
        OtherFeedType \<Rightarrow> load_feeds rest feeds st
      | _ \<Rightarrow>
          (case new_item ((snd (snd row))\<lparr>kind := Feeed, childItems := [], parent := None\<rparr>) st of
             (p, st1) \<Rightarrow> load_feeds rest (feeds @ [(fst row, p)]) st1))"

text \<open>
  \<open>loadFromDatabase\<close>. \<open>Fatal\<close> is the abort by \<open>qFatal\<close> after a failed query;
  \<open>None\<close> means that the call never returns.
\<close>

datatype load_result = Fatal | Loaded FeedsModel

definition loadFromDatabase ::
  "category_row list option \<Rightarrow> feed_row list option \<Rightarrow> FeedsModel \<Rightarrow> load_result option" where
  "loadFromDatabase category_rows feed_rows st =
     (let st1 = fold delete_item (childItems (heap st (m_rootItem st))) st;
          st2 = st1\<lparr>heap := clearChildren (m_rootItem st1) (heap st1)\<rparr>
      in case category_rows of
           None \<Rightarrow> Some Fatal
         | Some crows \<Rightarrow>
             (case load_categories crows [] st2 of
                (categories, st3) \<Rightarrow>
                  (case feed_rows of
                     None \<Rightarrow> Some Fatal
                   | Some frows \<Rightarrow>
                       (case load_feeds frows [] st3 of
                          (feeds, st4) \<Rightarrow>
                            (case assembleCategories categories st4 of
                               None \<Rightarrow> None
                             | Some st5 \<Rightarrow>
                                 (case assembleFeeds feeds st5 of
                                    None \<Rightarrow> None
                                  | Some st6 \<Rightarrow>
                                      Some (Loaded (st6\<lparr>heap :=
                                        appendChild (m_rootItem st6) (m_recycleBin st6)
                                          (heap st6)\<rparr>))))))))"

text \<open>
  The constructor of FeedsModel: the recycle bin and the root item are created, then the
  tree is loaded.
\<close>

definition root_item :: RootItem where
  "root_item =
     \<lparr>kind = Root, item_id = NO_PARENT_CATEGORY, title = ''Root'', childItems = [],
      parent = None, autoUpdateType = DontAutoUpdate, autoUpdateInitialInterval = 0,
      autoUpdateRemainingInterval = 0\<rparr>"

definition bin_item :: RootItem where
  "bin_item = root_item\<lparr>kind := Bin, title := ''Recycle bin''\<rparr>"

definition empty_model :: FeedsModel where
  "empty_model =
     \<lparr>heap = (\<lambda>p. root_item), allocated = {}, next_ptr = 0, m_rootItem = 0,
      m_recycleBin = 0, notifications = []\<rparr>"

definition FeedsModel_new ::
  "category_row list option \<Rightarrow> feed_row list option \<Rightarrow> load_result option" where
  "FeedsModel_new category_rows feed_rows =
     (case new_item bin_item empty_model of
        (bin, st1) \<Rightarrow>
          (case new_item root_item st1 of
             (root, st2) \<Rightarrow>
               loadFromDatabase category_rows feed_rows
                 (st2\<lparr>m_rootItem := root, m_recycleBin := bin\<rparr>)))"


subsection \<open>Merging an imported tree\<close>

text \<open>
  The tree of the import model is only read. An item of it carries whether it is checked
  for import, its content and its children; \<open>None\<close> for the whole tree means that the
  model or its root item is null.
\<close>

datatype source_item =
  SourceItem (src_checked: bool) (src_content: RootItem) (src_children: "source_item list")

fun weight :: "source_item \<Rightarrow> nat" where
  "weight (SourceItem c r cs) = Suc (sum_list (map weight cs))"

text \<open>
  The state of \<open>mergeModel\<close>: the feed tree, the two stacks (top first) and the error
  flag. \<open>attempts\<close> counts the calls of \<open>addItself\<close> so far, and \<open>addItself n\<close> is what
  the call number \<open>n\<close> of \<open>addItself\<close> returns (the persistent insertion is not part of
  the sources at hand).
\<close>

record merge_state =
  model :: FeedsModel
  original_parents :: "ptr list"
  new_parents :: "source_item list"
  some_feed_category_error :: bool
  attempts :: nat

text \<open>
  What stops a run of \<open>mergeModel\<close> outside the defined behaviour of the language: a member
  call through a pointer to a deleted object, and \<open>pop\<close> on an empty stack.
\<close>

datatype fault = UseAfterFree ptr | PopOfEmptyStack

text \<open>\<open>p->title()\<close>: the title of a live object; a fault for a deleted one.\<close>

definition title_of :: "FeedsModel \<Rightarrow> ptr \<Rightarrow> fault + string" where
  "title_of st p =
     (if p \<in> allocated st then Inr (title (heap st p)) else Inl (UseAfterFree p))"

definition push_parents :: "ptr \<Rightarrow> source_item \<Rightarrow> merge_state \<Rightarrow> merge_state" where
  "push_parents target source ms =
     ms\<lparr>original_parents := target # original_parents ms,
        new_parents := source # new_parents ms\<rparr>"

text \<open>
  The body of the \<open>foreach\<close> over the children of the source parent. Where
  \<open>addCategory\<close> fails it has deleted the new category, and the source then calls
  \<open>new_category->title()\<close> to look for an existing category of that title.
\<close>

definition merge_item ::
  "(nat \<Rightarrow> bool) \<Rightarrow> ptr \<Rightarrow> source_item \<Rightarrow> merge_state \<Rightarrow> fault + merge_state" where
  "merge_item addItself target_parent source_item ms =
     (if \<not> src_checked source_item then Inr ms
      else if kind (src_content source_item) = Cattegory then
        (case new_item ((src_content source_item)\<lparr>childItems := []\<rparr>) (model ms) of
           (new_category, st1) \<Rightarrow>
             (case addCategory (addItself (attempts ms)) new_category target_parent st1 of
                (added, st2) \<Rightarrow>
                  let ms1 = ms\<lparr>model := st2, attempts := Suc (attempts ms)\<rparr> in
                  if added then Inr (push_parents new_category source_item ms1)
                  else
                    (case title_of st2 new_category of
                       Inl f \<Rightarrow> Inl f
                     | Inr new_title \<Rightarrow>
                         (case child_by_title (heap st2) target_parent Cattegory new_title of
                            Some existing_category \<Rightarrow>
                              Inr (push_parents existing_category source_item ms1)
                          | None \<Rightarrow> Inr (ms1\<lparr>some_feed_category_error := True\<rparr>)))))
      else if kind (src_content source_item) = Feeed then
        (case new_item (src_content source_item) (model ms) of
           (new_feed, st1) \<Rightarrow>
             (case addFeed (addItself (attempts ms)) new_feed target_parent st1 of
                (added, st2) \<Rightarrow>
                  let ms1 = ms\<lparr>model := st2, attempts := Suc (attempts ms)\<rparr> in
                  if \<not> added then Inr (ms1\<lparr>some_feed_category_error := True\<rparr>)
                  else Inr ms1))
      else Inr ms)"

fun merge_children ::
  "(nat \<Rightarrow> bool) \<Rightarrow> ptr \<Rightarrow> source_item list \<Rightarrow> merge_state \<Rightarrow> fault + merge_state" where
  "merge_children addItself target_parent [] ms = Inr ms"
| "merge_children addItself target_parent (source_item # rest) ms =
     (case merge_item addItself target_parent source_item ms of
        Inl f \<Rightarrow> Inl f
      | Inr ms1 \<Rightarrow> merge_children addItself target_parent rest ms1)"

text \<open>
  The \<open>while\<close> loop. Both stacks are popped together; \<open>mergeModel\<close> keeps them at the
  same height, so the pop of an empty \<open>original_parents\<close> does not arise from it.
\<close>

function merge_loop :: "(nat \<Rightarrow> bool) \<Rightarrow> merge_state \<Rightarrow> fault + merge_state" where
  "merge_loop addItself ms =
     (case new_parents ms of
        [] \<Rightarrow> Inr ms
      | source_parent # new_rest \<Rightarrow>
          (case original_parents ms of
             [] \<Rightarrow> Inl PopOfEmptyStack
           | target_parent # original_rest \<Rightarrow>
               (case merge_children addItself target_parent (src_children source_parent)
                       (ms\<lparr>original_parents := original_rest, new_parents := new_rest\<rparr>) of
                  Inl f \<Rightarrow> Inl f
                | Inr ms1 \<Rightarrow> merge_loop addItself ms1)))"
  by pat_completeness auto
termination
proof (relation "measure (\<lambda>(addItself, ms). sum_list (map weight (new_parents ms)))")
  show "wf (measure (\<lambda>(addItself, ms). sum_list (map weight (new_parents ms))))"
    by simp
next
  fix addItself :: "nat \<Rightarrow> bool" and ms ms1 :: merge_state
    and source_parent new_rest target_parent original_rest
  assume np: "new_parents ms = source_parent # new_rest"
    and run: "merge_children addItself target_parent (src_children source_parent)
        (ms\<lparr>original_parents := original_rest, new_parents := new_rest\<rparr>) = Inr ms1"
  have item: "sum_list (map weight (new_parents m1))
      \<le> weight s + sum_list (map weight (new_parents m))"
    if "merge_item addItself t s m = Inr m1" for t s m m1
    using that
    by (auto simp: merge_item_def push_parents_def Let_def
        split: prod.splits option.splits sum.splits if_splits)
  have children: "sum_list (map weight (new_parents m1))
      \<le> sum_list (map weight cs) + sum_list (map weight (new_parents m))"
    if "merge_children addItself t cs m = Inr m1" for t cs m m1
    using that
  proof (induction cs arbitrary: m)
    case Nil
    then show ?case by simp
  next
    case (Cons c cs)
    from Cons.prems obtain m2 where
      m2: "merge_item addItself t c m = Inr m2" "merge_children addItself t cs m2 = Inr m1"
      by (auto split: sum.splits)
    from Cons.IH[OF m2(2)] item[OF m2(1)] show ?case by simp
  qed
  have "weight source_parent = Suc (sum_list (map weight (src_children source_parent)))"
    by (cases source_parent) simp
  with children[OF run] np
  show "((addItself, ms1), (addItself, ms))
        \<in> measure (\<lambda>(addItself, ms). sum_list (map weight (new_parents ms)))"
    by simp
qed

declare merge_loop.simps [simp del]

text \<open>
  \<open>mergeModel\<close> returns the result, the output message and the tree, unless the run hit
  a fault.
\<close>

definition mergeModel ::
  "(nat \<Rightarrow> bool) \<Rightarrow> source_item option \<Rightarrow> FeedsModel
     \<Rightarrow> fault + (bool \<times> string \<times> FeedsModel)" where
  "mergeModel addItself import_root st =
     (case import_root of
        None \<Rightarrow> Inr (False, ''Invalid tree data.'', st)
      | Some root \<Rightarrow>
          (case merge_loop addItself
                  \<lparr>model = st, original_parents = [m_rootItem st], new_parents = [root],
                   some_feed_category_error = False, attempts = 0\<rparr> of
             Inl f \<Rightarrow> Inl f
           | Inr ms \<Rightarrow>
               if some_feed_category_error ms
               then Inr (\<not> some_feed_category_error ms,
                      ''Import successfull, but some feeds/categories were not imported due to error.'',
                      model ms)
               else Inr (\<not> some_feed_category_error ms,
                      ''Import was completely successfull.'', model ms)))"

subsection \<open>Predicates and examples used in the statements\<close>



text \<open>The recycle bin is the last child of the root item.\<close>

definition bin_is_last :: "FeedsModel \<Rightarrow> bool" where
  "bin_is_last st =
     (childItems (heap st (m_rootItem st)) \<noteq> [] \<and>
      last (childItems (heap st (m_rootItem st))) = m_recycleBin st)"

text \<open>
  A structural operation with the outcome of its persistence step, its effect when it
  reports success (\<open>None\<close> otherwise), and a sequence of operations that all report
  success. \<open>NewItem\<close> is the caller creating the candidate that it then passes to
  \<open>addCategory\<close> or \<open>addFeed\<close>.
\<close>

datatype mutation =
    AddCategory bool ptr ptr
  | AddFeed bool ptr ptr
  | RemoveItem bool "ptr option"
  | ReassignNodeToNewParent ptr ptr
  | NewItem RootItem

fun apply_mutation :: "mutation \<Rightarrow> FeedsModel \<Rightarrow> FeedsModel option" where
  "apply_mutation (AddCategory addItself_ok category parent_item) st =
     (case addCategory addItself_ok category parent_item st of
        (True, st') \<Rightarrow> Some st' | (False, st') \<Rightarrow> None)"
| "apply_mutation (AddFeed addItself_ok feed parent_item) st =
     (case addFeed addItself_ok feed parent_item st of
        (True, st') \<Rightarrow> Some st' | (False, st') \<Rightarrow> None)"
| "apply_mutation (RemoveItem removeItself_ok idx) st =
     (case removeItem removeItself_ok idx st of
        Some (True, st') \<Rightarrow> Some st' | _ \<Rightarrow> None)"
| "apply_mutation (ReassignNodeToNewParent original_node new_parent) st =
     reassignNodeToNewParent original_node new_parent st"
| "apply_mutation (NewItem content) st = Some (snd (new_item content st))"

fun run_mutations :: "mutation list \<Rightarrow> FeedsModel \<Rightarrow> FeedsModel option" where
  "run_mutations [] st = Some st"
| "run_mutations (m # ms) st =
     (case apply_mutation m st of None \<Rightarrow> None | Some st' \<Rightarrow> run_mutations ms st')"

text \<open>
  The operation appends nothing under the root item and neither removes nor moves the
  recycle bin.
\<close>

fun spares_bin :: "ptr \<Rightarrow> ptr \<Rightarrow> mutation \<Rightarrow> bool" where
  "spares_bin root bin (AddCategory addItself_ok category parent_item) = (parent_item \<noteq> root)"
| "spares_bin root bin (AddFeed addItself_ok feed parent_item) = (parent_item \<noteq> root)"
| "spares_bin root bin (RemoveItem removeItself_ok idx) = (idx \<noteq> Some bin)"
| "spares_bin root bin (ReassignNodeToNewParent original_node new_parent) =
     (new_parent \<noteq> root \<and> original_node \<noteq> bin)"
| "spares_bin root bin (NewItem content) = True"

text \<open>
  A small tree: the root item 0 with a feed on its own interval (3 of 3 ticks left), a feed
  that is never updated, a feed on the global interval, and the recycle bin.
\<close>

definition blank_item :: RootItem where
  "blank_item = \<lparr>kind = Root, item_id = -1, title = ''Root'', childItems = [], parent = None,
      autoUpdateType = DontAutoUpdate, autoUpdateInitialInterval = 0,
      autoUpdateRemainingInterval = 0\<rparr>"

definition example_feed :: "int \<Rightarrow> AutoUpdateType \<Rightarrow> 32 word \<Rightarrow> 32 word \<Rightarrow> RootItem" where
  "example_feed i t initial remaining =
     blank_item\<lparr>kind := Feeed, item_id := i, title := ''Blog'', parent := Some 0,
       autoUpdateType := t, autoUpdateInitialInterval := initial,
       autoUpdateRemainingInterval := remaining\<rparr>"

definition example_tree :: FeedsModel where
  "example_tree =
     \<lparr>heap = (\<lambda>p. if p = 0 then blank_item\<lparr>childItems := [1, 2, 3, 4]\<rparr>
                 else if p = 1 then example_feed 1 SpecificAutoUpdate 3 3
                 else if p = 2 then example_feed 2 DontAutoUpdate 0 0
                 else if p = 3 then example_feed 3 DefaultAutoUpdate 0 0
                 else if p = 4 then blank_item\<lparr>kind := Bin, parent := Some 0\<rparr>
                 else blank_item),
      allocated = {0, 1, 2, 3, 4}, next_ptr = 5, m_rootItem = 0, m_recycleBin = 4,
      notifications = []\<rparr>"

text \<open>
  The tree right after construction from an empty database, and from a database with the
  single top-level category "Tech"; a sequence of operations below "Tech".
\<close>

definition example_category :: "int \<Rightarrow> string \<Rightarrow> RootItem" where
  "example_category i t = root_item\<lparr>kind := Cattegory, item_id := i, title := t\<rparr>"

definition fresh_tree :: FeedsModel where
  "fresh_tree =
     \<lparr>heap = (\<lambda>p. root_item)(Suc 0 := root_item\<lparr>childItems := [0]\<rparr>,
                                 0 := bin_item\<lparr>parent := Some (Suc 0)\<rparr>),
      allocated = {Suc 0, 0}, next_ptr = Suc (Suc 0), m_rootItem = Suc 0, m_recycleBin = 0,
      notifications = []\<rparr>"

definition tech_tree :: FeedsModel where
  "tech_tree =
     \<lparr>heap = (\<lambda>p. root_item)
               (Suc (Suc 0) := (example_category 10 ''Tech'')\<lparr>parent := Some (Suc 0)\<rparr>,
                Suc 0 := root_item\<lparr>childItems := [Suc (Suc 0), 0]\<rparr>,
                0 := bin_item\<lparr>parent := Some (Suc 0)\<rparr>),
      allocated = {Suc (Suc 0), Suc 0, 0}, next_ptr = Suc (Suc (Suc 0)), m_rootItem = Suc 0,
      m_recycleBin = 0, notifications = []\<rparr>"

definition example_mutations :: "mutation list" where
  "example_mutations =
     [NewItem (example_feed 1 DontAutoUpdate 0 0), AddFeed True 3 2, RemoveItem True (Some 3)]"

text \<open>
  In the state of the loop of \<open>assembleCategories\<close>, the parent id \<open>pid\<close> is declared
  by an entry still in the list, is not resolved, and is the id of no entry in the list.
\<close>

definition orphaned :: "int \<Rightarrow> (int \<times> ptr) list \<Rightarrow> (int \<rightharpoonup> ptr) \<Rightarrow> (ptr \<Rightarrow> RootItem) \<Rightarrow> bool" where
  "orphaned pid categories assignments h =
     (assignments pid = None \<and> pid \<in> fst ` set categories \<and>
      (\<forall>x \<in> set categories. item_id (h (snd x)) \<noteq> pid))"

text \<open>
  The categories still in the list form a forest over what is resolved already: each entry's
  parent id is resolved, or it is the id of another entry in the list that comes before it
  in some ranking. And: the item \<open>c\<close> hangs in the child list of its parent.
\<close>

definition forest_like ::
  "(ptr \<Rightarrow> nat) \<Rightarrow> (int \<times> ptr) list \<Rightarrow> (int \<rightharpoonup> ptr) \<Rightarrow> (ptr \<Rightarrow> RootItem) \<Rightarrow> bool" where
  "forest_like rank categories assignments h =
     (\<forall>x \<in> set categories.
        assignments (fst x) \<noteq> None \<or>
        (\<exists>y \<in> set categories. item_id (h (snd y)) = fst x \<and> rank (snd y) < rank (snd x)))"

definition attached :: "(ptr \<Rightarrow> RootItem) \<Rightarrow> ptr \<Rightarrow> bool" where
  "attached h c = (\<exists>q. parent (h c) = Some q \<and> c \<in> set (childItems (h q)))"

subsection \<open>Examples for the merge\<close>

text \<open>The state in which \<open>mergeModel\<close> enters its loop.\<close>

definition initial_merge_state :: "FeedsModel \<Rightarrow> source_item \<Rightarrow> merge_state" where
  "initial_merge_state st root =
     \<lparr>model = st, original_parents = [m_rootItem st], new_parents = [root],
      some_feed_category_error = False, attempts = 0\<rparr>"

text \<open>
  An import with the categories "Tech" and "News", each holding one feed, everything
  checked; a store that takes every item, one that takes none, and one that takes the
  two categories of this import (the calls number 0 and 1) and refuses its feeds.
\<close>

definition blog_source :: source_item where
  "blog_source = SourceItem True (example_feed 5 DontAutoUpdate 0 0) []"

definition tech_source :: source_item where
  "tech_source = SourceItem True (example_category 77 ''Tech'') [blog_source]"

definition news_source :: source_item where
  "news_source = SourceItem True (example_category 78 ''News'') [blog_source]"

definition import_root :: source_item where
  "import_root = SourceItem True root_item [tech_source, news_source]"

definition every_add :: "nat \<Rightarrow> bool" where
  "every_add n = True"

definition no_add :: "nat \<Rightarrow> bool" where
  "no_add n = False"

definition no_feed_add :: "nat \<Rightarrow> bool" where
  "no_feed_add n = (n < 2)"

section \<open>Properties of the message list model\<close>

lemmas msg_columns =
  MSG_DB_ID_INDEX_def MSG_DB_READ_INDEX_def MSG_DB_DELETED_INDEX_def
  MSG_DB_IMPORTANT_INDEX_def MSG_DB_AUTHOR_INDEX_def MSG_DB_DCREATED_INDEX_def
  MSG_DB_PDELETED_INDEX_def MSG_DB_COLUMN_COUNT_def

lemma index_valid: "0 \<le> row \<Longrightarrow> row < rowCount m \<Longrightarrow> 0 \<le> c \<Longrightarrow> c < MSG_DB_COLUMN_COUNT \<Longrightarrow> index m row c = (row, c)"
  by (simp add: index_def)

lemma length_record_at [simp]: "length (record_at m row) = nat MSG_DB_COLUMN_COUNT"
  by (simp add: record_at_def)

lemma rec_value_setValue: "0 \<le> c \<Longrightarrow> c < int (length r) \<Longrightarrow> rec_value (rec_setValue c v r) c = v"
  by (simp add: rec_value_def rec_setValue_def)

lemma m_cache_setData:
  "m_cache (snd (setData idx v m)) =
     (m_cache m)(fst idx \<mapsto> rec_setValue (snd idx) v (messageAt m (fst idx)))"
  by (simp add: setData_def cache_setData_def messageAt_def Let_def)

lemma length_rec_setValue [simp]: "length (rec_setValue c v r) = length r"
  by (simp add: rec_setValue_def)

lemma length_messageAt:
  "cache_ok m \<Longrightarrow> length (messageAt m row) = nat MSG_DB_COLUMN_COUNT"
  by (auto simp: cache_ok_def ran_def messageAt_def cache_containsData_def cache_record_def)

lemma setData_read_back:
  assumes "cache_ok m" "0 \<le> snd idx" "snd idx < MSG_DB_COLUMN_COUNT"
  shows "data (snd (setData idx v m)) idx EditRole = v"
proof -
  have len: "snd idx < int (length (messageAt m (fst idx)))"
    using assms by (simp add: length_messageAt)
  have "data (snd (setData idx v m)) idx EditRole =
          rec_value (rec_setValue (snd idx) v (messageAt m (fst idx))) (snd idx)"
    by (simp add: data_def cache_containsData_def cache_data_def cache_record_def m_cache_setData)
  also have "\<dots> = v"
    using assms(2) len by (rule rec_value_setValue)
  finally show ?thesis .
qed

lemma rows_setData [simp]: "rows (snd (setData idx v m)) = rows m"
  by (simp add: setData_def cache_setData_def Let_def)

lemma QSqlQueryModel_data_setData [simp]:
  "QSqlQueryModel_data (snd (setData idx' v m)) idx = QSqlQueryModel_data m idx"
  by (simp add: QSqlQueryModel_data_def rowCount_def)


lemma repop: "m_cache (repopulate store m) = Map.empty"
  "data (repopulate store m) idx EditRole = QSqlQueryModel_data (m\<lparr>rows := store\<rparr>) idx"
  by (simp_all add: repopulate_def cache_clear_def data_def cache_containsData_def QSqlQueryModel_data_def rowCount_def)

lemma rec_value_setValue_other:
  "c' \<noteq> c \<Longrightarrow> rec_value (rec_setValue c v r) c' = rec_value r c'"
  by (auto simp: rec_value_def rec_setValue_def)

lemma rec_value_setValue_noop:
  "\<not> (0 \<le> c \<and> c < int (length r)) \<Longrightarrow> rec_setValue c v r = r"
  by (auto simp: rec_setValue_def)

lemma data_EditRole_cached:
  "m_cache m r = Some x \<Longrightarrow> data m (r, c) EditRole = rec_value x c"
  by (simp add: data_def cache_containsData_def cache_data_def cache_record_def)

lemma data_EditRole_uncached:
  "m_cache m r = None \<Longrightarrow> data m (r, c) EditRole = QSqlQueryModel_data m (r, c)"
  by (simp add: data_def cache_containsData_def)

lemma rec_value_record_at:
  "m_cache m r = None \<Longrightarrow> rec_value (record_at m r) c = data m (r, c) EditRole"
proof (cases "0 \<le> c \<and> c < MSG_DB_COLUMN_COUNT")
  case True
  then have n: "nat c < nat MSG_DB_COLUMN_COUNT" by simp
  show ?thesis if "m_cache m r = None"
  proof (cases "r < 0")
    case True
    with \<open>0 \<le> c \<and> c < MSG_DB_COLUMN_COUNT\<close> n that show ?thesis
      by (simp add: record_at_def rec_value_def data_EditRole_uncached QSqlQueryModel_data_def)
  next
    case False
    with \<open>0 \<le> c \<and> c < MSG_DB_COLUMN_COUNT\<close> n show ?thesis
      by (simp add: record_at_def rec_value_def)
  qed
next
  case False
  show ?thesis if "m_cache m r = None"
    using False that
    by (auto simp: rec_value_def data_EditRole_uncached QSqlQueryModel_data_def)
qed

lemma messageAt_reads:
  "rec_value (messageAt m r) c = data m (r, c) EditRole"
  by (cases "m_cache m r")
     (simp_all add: messageAt_def cache_containsData_def cache_record_def
        rec_value_record_at data_EditRole_cached)

lemma data_setData:
  assumes "cache_ok m"
  shows "data (snd (setData (r, c) v m)) (r', c') EditRole =
           (if r = r' \<and> c = c' \<and> 0 \<le> c \<and> c < MSG_DB_COLUMN_COUNT then v
            else data m (r', c') EditRole)"
proof (cases "r' = r")
  case False
  then show ?thesis
    by (simp add: data_def cache_containsData_def cache_data_def cache_record_def m_cache_setData)
next
  case True
  let ?old = "messageAt m r"
  have len: "length ?old = nat MSG_DB_COLUMN_COUNT"
    using assms by (rule length_messageAt)
  have rd: "data (snd (setData (r, c) v m)) (r, c') EditRole = rec_value (rec_setValue c v ?old) c'"
    by (simp add: data_EditRole_cached m_cache_setData)
  show ?thesis
  proof (cases "c = c'")
    case same: True
    show ?thesis
    proof (cases "0 \<le> c \<and> c < MSG_DB_COLUMN_COUNT")
      case True
      with len have "rec_value (rec_setValue c v ?old) c = v"
        by (intro rec_value_setValue) simp_all
      with True same \<open>r' = r\<close> rd show ?thesis by simp
    next
      case False
      with len have "rec_setValue c v ?old = ?old"
        by (intro rec_value_setValue_noop) auto
      with False same \<open>r' = r\<close> rd show ?thesis by (auto simp: messageAt_reads)
    qed
  next
    case False
    then have "rec_value (rec_setValue c v ?old) c' = rec_value ?old c'"
      by (intro rec_value_setValue_other) simp
    with False \<open>r' = r\<close> rd show ?thesis by (simp add: messageAt_reads)
  qed
qed

lemma cache_ok_setData: "cache_ok m \<Longrightarrow> cache_ok (snd (setData idx v m))"
  unfolding cache_ok_def m_cache_setData
  by (auto simp: ran_def length_messageAt[unfolded cache_ok_def] split: if_splits)

lemma m_selectedItem_setData [simp]: "m_selectedItem (snd (setData idx v m)) = m_selectedItem m"
  by (simp add: setData_def cache_setData_def Let_def)

lemma calls_setData [simp]:
  "calls (snd (setData idx v m)) = calls m @ [CacheSetData (fst idx) (snd idx) v]"
  by (simp add: setData_def cache_setData_def Let_def)

lemma rowCount_setData [simp]: "rowCount (snd (setData idx v m)) = rowCount m"
  by (simp add: rowCount_def)

lemma fst_setData [simp]: "fst (setData idx v m) = True"
  by (simp add: setData_def)

lemma index_setData [simp]: "index (snd (setData idx v m)) r c = index m r c"
  by (simp add: index_def)

lemma data_setData_index:
  assumes "cache_ok m" "rowCount mi = rowCount m"
  shows "data (snd (setData (index mi r c) v m)) (r', c') EditRole =
           (if r = r' \<and> c = c' \<and> 0 \<le> r \<and> r < rowCount m \<and> 0 \<le> c \<and> c < MSG_DB_COLUMN_COUNT
            then v else data m (r', c') EditRole)"
proof (cases "0 \<le> r \<and> r < rowCount m \<and> 0 \<le> c \<and> c < MSG_DB_COLUMN_COUNT")
  case True
  then have "index mi r c = (r, c)" by (simp add: index_def assms(2))
  with True show ?thesis by (simp add: data_setData[OF assms(1)])
next
  case False
  then have "index mi r c = (-1, -1)" by (simp add: index_def invalid_index_def assms(2))
  with False show ?thesis by (auto simp: data_setData[OF assms(1)])
qed

lemma only_cache_writes_refl: "only_cache_writes m m 0"
  by (simp add: only_cache_writes_def)

lemma only_cache_writes_setData: "only_cache_writes m (snd (setData idx v m)) 1"
  by (simp add: only_cache_writes_def)

lemma only_cache_writes_trans:
  "only_cache_writes m m1 a \<Longrightarrow> only_cache_writes m1 m2 b \<Longrightarrow> only_cache_writes m m2 (a + b)"
  unfolding only_cache_writes_def
  by (elim conjE exE, intro conjI) (simp, simp, rule_tac x="ws @ wsa" in exI, auto)

lemma only_cache_writes_step:
  "only_cache_writes (snd (setData idx v m)) m2 b \<Longrightarrow> only_cache_writes m m2 (Suc b)"
  using only_cache_writes_trans[OF only_cache_writes_setData, of idx v m m2 b] by simp

lemma collect_read_frame:
  "collect_read read messages ids m = (ids', m') \<Longrightarrow> only_cache_writes m m' (length messages)"
proof (induction messages arbitrary: ids m)
  case Nil
  then show ?case by (simp add: only_cache_writes_refl)
next
  case (Cons x xs)
  from Cons.prems Cons.IH show ?case
    by (auto simp: Let_def intro: only_cache_writes_step)
qed

lemma collect_read_cache:
  "cache_ok m \<Longrightarrow> collect_read read messages ids m = (ids', m') \<Longrightarrow>
     cache_ok m' \<and>
     (\<forall>r c. data m' (r, c) EditRole =
        (if r \<in> fst ` set messages \<and> 0 \<le> r \<and> r < rowCount m \<and> c = MSG_DB_READ_INDEX
         then Value (read_int read) else data m (r, c) EditRole))"
proof (induction messages arbitrary: ids m)
  case Nil
  then show ?case by simp
next
  case (Cons x xs)
  let ?m1 = "snd (setData (index m (fst x) MSG_DB_READ_INDEX) (Value (read_int read)) m)"
  have ok1: "cache_ok ?m1" using Cons.prems(1) by (rule cache_ok_setData)
  have run: "collect_read read xs (ids @ [m_id (messageAt m (fst x))]) ?m1 = (ids', m')"
    using Cons.prems(2) by (simp add: Let_def)
  from Cons.IH[OF ok1 run] show ?case
    by (auto simp: data_setData_index[OF Cons.prems(1) refl] msg_columns)
qed

lemma col_valid [simp]:
  "0 \<le> MSG_DB_READ_INDEX" "MSG_DB_READ_INDEX < MSG_DB_COLUMN_COUNT"
  "0 \<le> MSG_DB_DELETED_INDEX" "MSG_DB_DELETED_INDEX < MSG_DB_COLUMN_COUNT"
  "0 \<le> MSG_DB_PDELETED_INDEX" "MSG_DB_PDELETED_INDEX < MSG_DB_COLUMN_COUNT"
  "0 \<le> MSG_DB_IMPORTANT_INDEX" "MSG_DB_IMPORTANT_INDEX < MSG_DB_COLUMN_COUNT"
  "0 \<le> MSG_DB_ID_INDEX" "MSG_DB_ID_INDEX < MSG_DB_COLUMN_COUNT"
  "MSG_DB_PDELETED_INDEX \<noteq> MSG_DB_DELETED_INDEX"
  "MSG_DB_DELETED_INDEX \<noteq> MSG_DB_PDELETED_INDEX"
  by (simp_all add: msg_columns)


lemma collect_deleted_frame:
  "collect_deleted messages ids m = (ids', m') \<Longrightarrow> only_cache_writes m m' (length messages)"
proof (induction messages arbitrary: ids m)
  case Nil
  then show ?case by (simp add: only_cache_writes_refl)
next
  case (Cons x xs)
  from Cons.prems Cons.IH show ?case
    by (auto simp: Let_def intro: only_cache_writes_step split: if_splits)
qed

lemma collect_deleted_cache:
  "cache_ok m \<Longrightarrow> collect_deleted messages ids m = (ids', m') \<Longrightarrow>
     cache_ok m' \<and>
     (\<forall>r c. data m' (r, c) EditRole =
        (if r \<in> fst ` set messages \<and> 0 \<le> r \<and> r < rowCount m \<and>
            c = (if is_RecycleBin (m_selectedItem m) then MSG_DB_PDELETED_INDEX
                 else MSG_DB_DELETED_INDEX)
         then Value 1 else data m (r, c) EditRole))"
proof (induction messages arbitrary: ids m)
  case Nil
  then show ?case by simp
next
  case (Cons x xs)
  let ?c = "if is_RecycleBin (m_selectedItem m) then MSG_DB_PDELETED_INDEX else MSG_DB_DELETED_INDEX"
  let ?m1 = "snd (setData (index m (fst x) ?c) (Value 1) m)"
  have ok1: "cache_ok ?m1" using Cons.prems(1) by (rule cache_ok_setData)
  have run: "collect_deleted xs (ids @ [m_id (messageAt m (fst x))]) ?m1 = (ids', m')"
    using Cons.prems(2) by (simp add: Let_def split: if_splits)
  from Cons.IH[OF ok1 run] show ?case
    by (auto simp: data_setData_index[OF Cons.prems(1) refl] msg_columns)
qed

lemma collect_restored_frame:
  "collect_restored messages ids m = (ids', m') \<Longrightarrow> only_cache_writes m m' (2 * length messages)"
proof (induction messages arbitrary: ids m)
  case Nil
  then show ?case by (simp add: only_cache_writes_refl)
next
  case (Cons x xs)
  from Cons.prems Cons.IH show ?case
    by (auto simp: Let_def intro!: only_cache_writes_step)
qed

lemma collect_restored_cache:
  "cache_ok m \<Longrightarrow> collect_restored messages ids m = (ids', m') \<Longrightarrow>
     cache_ok m' \<and>
     (\<forall>r c. data m' (r, c) EditRole =
        (if r \<in> fst ` set messages \<and> 0 \<le> r \<and> r < rowCount m \<and>
            (c = MSG_DB_PDELETED_INDEX \<or> c = MSG_DB_DELETED_INDEX)
         then Value 0 else data m (r, c) EditRole))"
proof (induction messages arbitrary: ids m)
  case Nil
  then show ?case by simp
next
  case (Cons x xs)
  let ?m1 = "snd (setData (index m (fst x) MSG_DB_PDELETED_INDEX) (Value 0) m)"
  let ?m2 = "snd (setData (index ?m1 (fst x) MSG_DB_DELETED_INDEX) (Value 0) ?m1)"
  have ok1: "cache_ok ?m1" using Cons.prems(1) by (rule cache_ok_setData)
  have ok2: "cache_ok ?m2" using ok1 by (rule cache_ok_setData)
  have run: "collect_restored xs (ids @ [m_id (messageAt m (fst x))]) ?m2 = (ids', m')"
    using Cons.prems(2) by (simp add: Let_def)
  have step: "data ?m2 (r, c) EditRole =
      (if r = fst x \<and> 0 \<le> r \<and> r < rowCount m \<and>
          (c = MSG_DB_PDELETED_INDEX \<or> c = MSG_DB_DELETED_INDEX)
       then Value 0 else data m (r, c) EditRole)" for r c
    by (simp add: data_setData_index[OF Cons.prems(1) refl] data_setData_index[OF ok1 rowCount_setData[symmetric]])
  have ih: "cache_ok m'" "data m' (r, c) EditRole =
        (if r \<in> fst ` set xs \<and> 0 \<le> r \<and> r < rowCount m \<and>
            (c = MSG_DB_PDELETED_INDEX \<or> c = MSG_DB_DELETED_INDEX)
         then Value 0 else data ?m2 (r, c) EditRole)" for r c
    using Cons.IH[OF ok2 run] by simp_all
  show ?case
    unfolding ih(2) step using ih(1) by auto
qed

lemma collect_importance_frame:
  "collect_importance messages sts m = (sts', m') \<Longrightarrow> only_cache_writes m m' (length messages)"
proof (induction messages arbitrary: sts m)
  case Nil
  then show ?case by (simp add: only_cache_writes_refl)
next
  case (Cons x xs)
  from Cons.prems Cons.IH show ?case
    by (auto simp: Let_def intro: only_cache_writes_step)
qed

lemma collect_importance_cache:
  "cache_ok m \<Longrightarrow> distinct (map fst messages) \<Longrightarrow>
   collect_importance messages sts m = (sts', m') \<Longrightarrow>
     cache_ok m' \<and>
     (\<forall>r c. data m' (r, c) EditRole =
        (if r \<in> fst ` set messages \<and> 0 \<le> r \<and> r < rowCount m \<and> c = MSG_DB_IMPORTANT_INDEX
         then Value (importance_int (flip_importance (messageImportance m r)))
         else data m (r, c) EditRole))"
proof (induction messages arbitrary: sts m)
  case Nil
  then show ?case by simp
next
  case (Cons x xs)
  let ?v = "Value (importance_int (flip_importance (messageImportance m (fst x))))"
  let ?m1 = "snd (setData (index m (fst x) MSG_DB_IMPORTANT_INDEX) ?v m)"
  have ok1: "cache_ok ?m1" using Cons.prems(1) by (rule cache_ok_setData)
  have d: "distinct (map fst xs)" and nin: "fst x \<notin> fst ` set xs"
    using Cons.prems(2) by simp_all
  obtain sts1 where run: "collect_importance xs sts1 ?m1 = (sts', m')"
    using Cons.prems(3) by (simp add: Let_def flip_importance_def)
  have step: "data ?m1 (r, c) EditRole =
      (if r = fst x \<and> 0 \<le> r \<and> r < rowCount m \<and> c = MSG_DB_IMPORTANT_INDEX
       then ?v else data m (r, c) EditRole)" for r c
    by (simp add: data_setData_index[OF Cons.prems(1) refl])
  have imp: "messageImportance ?m1 r = messageImportance m r" if "r \<noteq> fst x" for r
    using that
    by (simp add: messageImportance_def data_at_def index_def invalid_index_def
        data_setData[OF Cons.prems(1)] data_setData_index[OF Cons.prems(1) refl])
  have ih: "cache_ok m'" "data m' (r, c) EditRole =
        (if r \<in> fst ` set xs \<and> 0 \<le> r \<and> r < rowCount m \<and> c = MSG_DB_IMPORTANT_INDEX
         then Value (importance_int (flip_importance (messageImportance ?m1 r)))
         else data ?m1 (r, c) EditRole)" for r c
    using Cons.IH[OF ok1 d run] by simp_all
  have ih': "data m' (r, c) EditRole =
        (if r \<in> fst ` set xs \<and> 0 \<le> r \<and> r < rowCount m \<and> c = MSG_DB_IMPORTANT_INDEX
         then Value (importance_int (flip_importance (messageImportance m r)))
         else data ?m1 (r, c) EditRole)" for r c
  proof (cases "r \<in> fst ` set xs")
    case True
    with nin have "r \<noteq> fst x" by blast
    then show ?thesis unfolding ih(2) by (simp add: imp)
  next
    case False
    then show ?thesis unfolding ih(2) by simp
  qed
  show ?case
    unfolding ih' step using ih(1) nin by auto
qed

lemma setMessageReadById_from_cases:
  "(setMessageReadById_from i ident read m = (False, m) \<and>
      (\<forall>j. i \<le> j \<and> j < rowCount m \<longrightarrow> messageId m j \<noteq> ident)) \<or>
   (\<exists>k. i \<le> k \<and> k < rowCount m \<and> messageId m k = ident \<and>
      (\<forall>j. i \<le> j \<and> j < k \<longrightarrow> messageId m j \<noteq> ident) \<and>
      setMessageReadById_from i ident read m =
        setData (index m k MSG_DB_READ_INDEX) (Value (read_int read)) m)"
proof (induction i ident read m rule: setMessageReadById_from.induct)
  case (1 i ident read m)
  show ?case
  proof (cases "i < rowCount m")
    case False
    then show ?thesis by simp
  next
    case inside: True
    show ?thesis
    proof (cases "messageId m i = ident")
      case True
      with inside have
        "setMessageReadById_from i ident read m =
           setData (index m i MSG_DB_READ_INDEX) (Value (read_int read)) m"
        by (simp add: messageId_def)
      with True inside show ?thesis by (intro disjI2 exI[of _ i]) simp
    next
      case False
      with inside have unfold:
        "setMessageReadById_from i ident read m = setMessageReadById_from (i + 1) ident read m"
        by (simp add: messageId_def)
      have ih: "(setMessageReadById_from (i + 1) ident read m = (False, m) \<and>
          (\<forall>j. i + 1 \<le> j \<and> j < rowCount m \<longrightarrow> messageId m j \<noteq> ident)) \<or>
        (\<exists>k. i + 1 \<le> k \<and> k < rowCount m \<and> messageId m k = ident \<and>
          (\<forall>j. i + 1 \<le> j \<and> j < k \<longrightarrow> messageId m j \<noteq> ident) \<and>
          setMessageReadById_from (i + 1) ident read m =
            setData (index m k MSG_DB_READ_INDEX) (Value (read_int read)) m)"
        using "1.IH"[OF inside refl] False by (simp add: messageId_def)
      have step: "i \<le> j \<Longrightarrow> j \<noteq> i \<Longrightarrow> i + 1 \<le> j" for j by simp
      from ih show ?thesis
      proof
        assume a: "setMessageReadById_from (i + 1) ident read m = (False, m) \<and>
          (\<forall>j. i + 1 \<le> j \<and> j < rowCount m \<longrightarrow> messageId m j \<noteq> ident)"
        have "\<forall>j. i \<le> j \<and> j < rowCount m \<longrightarrow> messageId m j \<noteq> ident"
        proof (intro allI impI)
          fix j assume "i \<le> j \<and> j < rowCount m"
          then show "messageId m j \<noteq> ident"
            using a False by (cases "j = i") (simp_all add: step)
        qed
        with a unfold show ?thesis by simp
      next
        assume "\<exists>k. i + 1 \<le> k \<and> k < rowCount m \<and> messageId m k = ident \<and>
          (\<forall>j. i + 1 \<le> j \<and> j < k \<longrightarrow> messageId m j \<noteq> ident) \<and>
          setMessageReadById_from (i + 1) ident read m =
            setData (index m k MSG_DB_READ_INDEX) (Value (read_int read)) m"
        then obtain k where k: "i + 1 \<le> k" "k < rowCount m" "messageId m k = ident"
          "\<forall>j. i + 1 \<le> j \<and> j < k \<longrightarrow> messageId m j \<noteq> ident"
          "setMessageReadById_from (i + 1) ident read m =
            setData (index m k MSG_DB_READ_INDEX) (Value (read_int read)) m"
          by blast
        have "\<forall>j. i \<le> j \<and> j < k \<longrightarrow> messageId m j \<noteq> ident"
        proof (intro allI impI)
          fix j assume "i \<le> j \<and> j < k"
          then show "messageId m j \<noteq> ident"
            using k(4) False by (cases "j = i") (simp_all add: step)
        qed
        with k unfold show ?thesis
          by (intro disjI2 exI[of _ k]) simp
      qed
    qed
  qed
qed

lemma setMessageImportantById_from_cases:
  "(setMessageImportantById_from i ident important m = (False, m) \<and>
      (\<forall>j. i \<le> j \<and> j < rowCount m \<longrightarrow> messageId m j \<noteq> ident)) \<or>
   (\<exists>k. i \<le> k \<and> k < rowCount m \<and> messageId m k = ident \<and>
      (\<forall>j. i \<le> j \<and> j < k \<longrightarrow> messageId m j \<noteq> ident) \<and>
      setMessageImportantById_from i ident important m =
        setData (index m k MSG_DB_IMPORTANT_INDEX) (Value (importance_int important)) m)"
proof (induction i ident important m rule: setMessageImportantById_from.induct)
  case (1 i ident important m)
  show ?case
  proof (cases "i < rowCount m")
    case False
    then show ?thesis by simp
  next
    case inside: True
    show ?thesis
    proof (cases "messageId m i = ident")
      case True
      with inside have
        "setMessageImportantById_from i ident important m =
           setData (index m i MSG_DB_IMPORTANT_INDEX) (Value (importance_int important)) m"
        by (simp add: messageId_def)
      with True inside show ?thesis by (intro disjI2 exI[of _ i]) simp
    next
      case False
      with inside have unfold:
        "setMessageImportantById_from i ident important m =
           setMessageImportantById_from (i + 1) ident important m"
        by (simp add: messageId_def)
      have ih: "(setMessageImportantById_from (i + 1) ident important m = (False, m) \<and>
          (\<forall>j. i + 1 \<le> j \<and> j < rowCount m \<longrightarrow> messageId m j \<noteq> ident)) \<or>
        (\<exists>k. i + 1 \<le> k \<and> k < rowCount m \<and> messageId m k = ident \<and>
          (\<forall>j. i + 1 \<le> j \<and> j < k \<longrightarrow> messageId m j \<noteq> ident) \<and>
          setMessageImportantById_from (i + 1) ident important m =
            setData (index m k MSG_DB_IMPORTANT_INDEX) (Value (importance_int important)) m)"
        using "1.IH"[OF inside refl] False by (simp add: messageId_def)
      have step: "i \<le> j \<Longrightarrow> j \<noteq> i \<Longrightarrow> i + 1 \<le> j" for j by simp
      from ih show ?thesis
      proof
        assume a: "setMessageImportantById_from (i + 1) ident important m = (False, m) \<and>
          (\<forall>j. i + 1 \<le> j \<and> j < rowCount m \<longrightarrow> messageId m j \<noteq> ident)"
        have "\<forall>j. i \<le> j \<and> j < rowCount m \<longrightarrow> messageId m j \<noteq> ident"
        proof (intro allI impI)
          fix j assume "i \<le> j \<and> j < rowCount m"
          then show "messageId m j \<noteq> ident"
            using a False by (cases "j = i") (simp_all add: step)
        qed
        with a unfold show ?thesis by simp
      next
        assume "\<exists>k. i + 1 \<le> k \<and> k < rowCount m \<and> messageId m k = ident \<and>
          (\<forall>j. i + 1 \<le> j \<and> j < k \<longrightarrow> messageId m j \<noteq> ident) \<and>
          setMessageImportantById_from (i + 1) ident important m =
            setData (index m k MSG_DB_IMPORTANT_INDEX) (Value (importance_int important)) m"
        then obtain k where k: "i + 1 \<le> k" "k < rowCount m" "messageId m k = ident"
          "\<forall>j. i + 1 \<le> j \<and> j < k \<longrightarrow> messageId m j \<noteq> ident"
          "setMessageImportantById_from (i + 1) ident important m =
            setData (index m k MSG_DB_IMPORTANT_INDEX) (Value (importance_int important)) m"
          by blast
        have "\<forall>j. i \<le> j \<and> j < k \<longrightarrow> messageId m j \<noteq> ident"
        proof (intro allI impI)
          fix j assume "i \<le> j \<and> j < k"
          then show "messageId m j \<noteq> ident"
            using k(4) False by (cases "j = i") (simp_all add: step)
        qed
        with k unfold show ?thesis
          by (intro disjI2 exI[of _ k]) simp
      qed
    qed
  qed
qed

text \<open>The outcome of a lookup by id, for the column written and the value stored.\<close>

lemma by_id_outcome:
  assumes ok: "cache_ok m"
    and col: "0 \<le> column" "column < MSG_DB_COLUMN_COUNT"
    and cases: "(res = (False, m) \<and> (\<forall>j. 0 \<le> j \<and> j < rowCount m \<longrightarrow> messageId m j \<noteq> ident)) \<or>
      (\<exists>k. 0 \<le> k \<and> k < rowCount m \<and> messageId m k = ident \<and>
         (\<forall>j. 0 \<le> j \<and> j < k \<longrightarrow> messageId m j \<noteq> ident) \<and>
         res = setData (index m k column) v m)"
  shows "(\<forall>e \<in> set (calls (snd res)). \<not> is_cache_write e \<longrightarrow> e \<in> set (calls m)) \<and>
     rows (snd res) = rows m \<and>
     (fst res \<longleftrightarrow> (\<exists>i. 0 \<le> i \<and> i < rowCount m \<and> messageId m i = ident)) \<and>
     (\<not> fst res \<longrightarrow> snd res = m) \<and>
     (fst res \<longrightarrow>
        (\<exists>i. 0 \<le> i \<and> i < rowCount m \<and> messageId m i = ident \<and>
           (\<forall>j. 0 \<le> j \<and> j < i \<longrightarrow> messageId m j \<noteq> ident) \<and>
           calls (snd res) = calls m @ [CacheSetData i column v] \<and>
           (\<forall>r c. data (snd res) (r, c) EditRole =
                    (if r = i \<and> c = column then v else data m (r, c) EditRole))))"
  using cases
proof
  assume "res = (False, m) \<and> (\<forall>j. 0 \<le> j \<and> j < rowCount m \<longrightarrow> messageId m j \<noteq> ident)"
  then show ?thesis by auto
next
  assume "\<exists>k. 0 \<le> k \<and> k < rowCount m \<and> messageId m k = ident \<and>
         (\<forall>j. 0 \<le> j \<and> j < k \<longrightarrow> messageId m j \<noteq> ident) \<and>
         res = setData (index m k column) v m"
  then obtain k where k: "0 \<le> k" "k < rowCount m" "messageId m k = ident"
      "\<forall>j. 0 \<le> j \<and> j < k \<longrightarrow> messageId m j \<noteq> ident"
      "res = setData (index m k column) v m"
    by blast
  have idx: "index m k column = (k, column)"
    using k(1,2) col by (simp add: index_def)
  have rd: "data (snd res) (r, c) EditRole =
      (if r = k \<and> c = column then v else data m (r, c) EditRole)" for r c
    unfolding k(5) using k(1,2) col by (simp add: data_setData_index[OF ok refl])
  have cl: "calls (snd res) = calls m @ [CacheSetData k column v]"
    unfolding k(5) by (simp add: idx)
  have "\<exists>i. 0 \<le> i \<and> i < rowCount m \<and> messageId m i = ident \<and>
           (\<forall>j. 0 \<le> j \<and> j < i \<longrightarrow> messageId m j \<noteq> ident) \<and>
           calls (snd res) = calls m @ [CacheSetData i column v] \<and>
           (\<forall>r c. data (snd res) (r, c) EditRole =
                    (if r = i \<and> c = column then v else data m (r, c) EditRole))"
    using k(1-4) cl rd by (intro exI[of _ k]) simp
  moreover have "fst res" "rows (snd res) = rows m" unfolding k(5) by simp_all
  moreover have "\<exists>i. 0 \<le> i \<and> i < rowCount m \<and> messageId m i = ident"
    using k(1-3) by blast
  moreover have "\<forall>e \<in> set (calls (snd res)). \<not> is_cache_write e \<longrightarrow> e \<in> set (calls m)"
    unfolding cl by simp
  ultimately show ?thesis by blast
qed

text \<open>
  Claim C10. \<open>setMessageReadById\<close> and \<open>setMessageImportantById\<close> only write the
  pending-edit cache: every hook or database call in the log afterwards was there before,
  and the fetched rows are the same. They report success exactly when some row of the
  current row set carries the id; then the first such row gets the one cache write and an
  edit-role read of any other cell is as before; when no row matches, the state is
  unchanged.
\<close>

theorem lookup_by_id_writes_cache_only:
  assumes "cache_ok m"
  shows "(\<forall>e \<in> set (calls (snd (setMessageReadById ident read m))).
            \<not> is_cache_write e \<longrightarrow> e \<in> set (calls m)) \<and>
     rows (snd (setMessageReadById ident read m)) = rows m \<and>
     (fst (setMessageReadById ident read m) \<longleftrightarrow>
        (\<exists>i. 0 \<le> i \<and> i < rowCount m \<and> messageId m i = ident)) \<and>
     (\<not> fst (setMessageReadById ident read m) \<longrightarrow> snd (setMessageReadById ident read m) = m) \<and>
     (fst (setMessageReadById ident read m) \<longrightarrow>
        (\<exists>i. 0 \<le> i \<and> i < rowCount m \<and> messageId m i = ident \<and>
           (\<forall>j. 0 \<le> j \<and> j < i \<longrightarrow> messageId m j \<noteq> ident) \<and>
           calls (snd (setMessageReadById ident read m)) =
             calls m @ [CacheSetData i MSG_DB_READ_INDEX (Value (read_int read))] \<and>
           (\<forall>r c. data (snd (setMessageReadById ident read m)) (r, c) EditRole =
                    (if r = i \<and> c = MSG_DB_READ_INDEX then Value (read_int read)
                     else data m (r, c) EditRole)))) \<and>
     (\<forall>e \<in> set (calls (snd (setMessageImportantById ident important m))).
            \<not> is_cache_write e \<longrightarrow> e \<in> set (calls m)) \<and>
     rows (snd (setMessageImportantById ident important m)) = rows m \<and>
     (fst (setMessageImportantById ident important m) \<longleftrightarrow>
        (\<exists>i. 0 \<le> i \<and> i < rowCount m \<and> messageId m i = ident)) \<and>
     (\<not> fst (setMessageImportantById ident important m) \<longrightarrow>
        snd (setMessageImportantById ident important m) = m) \<and>
     (fst (setMessageImportantById ident important m) \<longrightarrow>
        (\<exists>i. 0 \<le> i \<and> i < rowCount m \<and> messageId m i = ident \<and>
           (\<forall>j. 0 \<le> j \<and> j < i \<longrightarrow> messageId m j \<noteq> ident) \<and>
           calls (snd (setMessageImportantById ident important m)) =
             calls m @ [CacheSetData i MSG_DB_IMPORTANT_INDEX (Value (importance_int important))] \<and>
           (\<forall>r c. data (snd (setMessageImportantById ident important m)) (r, c) EditRole =
                    (if r = i \<and> c = MSG_DB_IMPORTANT_INDEX then Value (importance_int important)
                     else data m (r, c) EditRole))))"
proof -
  note r = by_id_outcome[OF assms col_valid(1,2)
      setMessageReadById_from_cases[of 0 ident read m, folded setMessageReadById_def]]
  note i = by_id_outcome[OF assms col_valid(7,8)
      setMessageImportantById_from_cases[of 0 ident important m, folded setMessageImportantById_def]]
  from r i show ?thesis by (intro conjI) blast+
qed

lemma rows_emit [simp]: "rows (emit e m) = rows m"
  by (simp add: emit_def)

lemma m_selectedItem_emit [simp]: "m_selectedItem (emit e m) = m_selectedItem m"
  by (simp add: emit_def)

lemma QSqlQueryModel_data_emit [simp]: "QSqlQueryModel_data (emit e m) idx = QSqlQueryModel_data m idx"
  by (simp add: QSqlQueryModel_data_def rowCount_def)

lemma cache_containsData_emit [simp]: "cache_containsData (emit e m) r = cache_containsData m r"
  by (simp add: emit_def cache_containsData_def)

lemma cache_data_emit [simp]: "cache_data (emit e m) idx = cache_data m idx"
  by (simp add: emit_def cache_data_def cache_record_def)

lemma data_emit [simp]: "data (emit e m) idx role = data m idx role"
  by (cases role) (simp_all add: data_def)

lemma index_emit [simp]: "index (emit e m) r c = index m r c"
  by (simp add: emit_def index_def rowCount_def)

lemma calls_emit [simp]: "calls (emit e m) = calls m @ [e]"
  by (simp add: emit_def)

lemma m_cache_emit [simp]: "m_cache (emit e m) = m_cache m"
  by (simp add: emit_def)

lemma data_at_valid:
  "0 \<le> r \<Longrightarrow> r < rowCount m \<Longrightarrow> 0 \<le> c \<Longrightarrow> c < MSG_DB_COLUMN_COUNT \<Longrightarrow>
     data_at m r c role = data m (r, c) role"
  by (simp add: data_at_def index_def)

lemma rowCount_cong: "rows m' = rows m \<Longrightarrow> rowCount m' = rowCount m"
  by (simp add: rowCount_def)

lemma rowCount_emit [simp]: "rowCount (emit e m) = rowCount m"
  by (simp add: emit_def rowCount_def)

lemma hook_persist_hook_True:
  "hook_persist_hook oc b d a m = Some (True, m') \<Longrightarrow>
     m_selectedItem m \<noteq> None \<and> before_ok oc \<and> db_ok oc \<and> after_ok oc \<and>
     m' = emit a (emit d (emit b m))"
  by (auto simp: hook_persist_hook_def Let_def split: option.splits if_splits)

lemma hook_persist_hook_reject:
  "m_selectedItem m = Some item \<Longrightarrow> \<not> before_ok oc \<Longrightarrow>
     hook_persist_hook oc b d a m = Some (False, emit b m)"
  by (simp add: hook_persist_hook_def Let_def)


lemma m_id_messageAt_setData:
  assumes "cache_ok m" "rowCount mi = rowCount m" "c \<noteq> MSG_DB_ID_INDEX"
  shows "m_id (messageAt (snd (setData (index mi r c) v m)) r') = m_id (messageAt m r')"
  using assms(3)
  by (simp add: m_id_def messageAt_reads data_setData_index[OF assms(1,2)])

lemma cache_write_setData [simp]:
  "cache_write (snd (setData idx v m)) c w = cache_write m c w"
  by (rule ext) (simp add: cache_write_def)

lemma collect_deleted_calls:
  "cache_ok m \<Longrightarrow> collect_deleted messages ids m = (ids', m') \<Longrightarrow>
     ids' = ids @ selected_ids m messages \<and>
     calls m' = calls m @
       map (cache_write m (if is_RecycleBin (m_selectedItem m) then MSG_DB_PDELETED_INDEX
                           else MSG_DB_DELETED_INDEX) (Value 1)) messages"
proof (induction messages arbitrary: ids m)
  case Nil
  then show ?case by (simp add: selected_ids_def)
next
  case (Cons x xs)
  let ?c = "if is_RecycleBin (m_selectedItem m) then MSG_DB_PDELETED_INDEX else MSG_DB_DELETED_INDEX"
  let ?m1 = "snd (setData (index m (fst x) ?c) (Value 1) m)"
  have ok1: "cache_ok ?m1" using Cons.prems(1) by (rule cache_ok_setData)
  have run: "collect_deleted xs (ids @ [m_id (messageAt m (fst x))]) ?m1 = (ids', m')"
    using Cons.prems(2) by (simp add: Let_def split: if_splits)
  have c: "?c \<noteq> MSG_DB_ID_INDEX" by (simp add: msg_columns)
  have same: "selected_ids ?m1 xs = selected_ids m xs"
    unfolding selected_ids_def
    by (rule map_cong[OF refl]) (rule m_id_messageAt_setData[OF Cons.prems(1) refl c])
  from Cons.IH[OF ok1 run] same show ?case
    by (simp add: selected_ids_def cache_write_def)
qed

lemma collect_restored_calls:
  "cache_ok m \<Longrightarrow> collect_restored messages ids m = (ids', m') \<Longrightarrow>
     ids' = ids @ selected_ids m messages \<and>
     calls m' = calls m @
       concat (map (\<lambda>x. [cache_write m MSG_DB_PDELETED_INDEX (Value 0) x,
                          cache_write m MSG_DB_DELETED_INDEX (Value 0) x]) messages)"
proof (induction messages arbitrary: ids m)
  case Nil
  then show ?case by (simp add: selected_ids_def)
next
  case (Cons x xs)
  let ?m1 = "snd (setData (index m (fst x) MSG_DB_PDELETED_INDEX) (Value 0) m)"
  let ?m2 = "snd (setData (index ?m1 (fst x) MSG_DB_DELETED_INDEX) (Value 0) ?m1)"
  have ok1: "cache_ok ?m1" using Cons.prems(1) by (rule cache_ok_setData)
  have ok2: "cache_ok ?m2" using ok1 by (rule cache_ok_setData)
  have run: "collect_restored xs (ids @ [m_id (messageAt m (fst x))]) ?m2 = (ids', m')"
    using Cons.prems(2) by (simp add: Let_def)
  have c: "MSG_DB_PDELETED_INDEX \<noteq> MSG_DB_ID_INDEX" "MSG_DB_DELETED_INDEX \<noteq> MSG_DB_ID_INDEX"
    by (simp_all add: msg_columns)
  have "m_id (messageAt ?m2 r) = m_id (messageAt m r)" for r
    using m_id_messageAt_setData[OF ok1 refl c(2), of "fst x" "Value 0" r]
      m_id_messageAt_setData[OF Cons.prems(1) refl c(1), of "fst x" "Value 0" r]
    by simp
  then have same: "selected_ids ?m2 xs = selected_ids m xs"
    by (simp add: selected_ids_def)
  from Cons.IH[OF ok2 run] same show ?case
    by (simp add: selected_ids_def cache_write_def)
qed

text \<open>
  Claim C9. When \<open>setBatchMessagesDeleted\<close> succeeds on a view that is not the recycle
  bin, every selected row of the result reads soft-deleted = 1 and permanently-deleted as
  before, and the calls made are one cache write per selected row, then the before-hook, the move
  to the bin and the after-hook, each with the ids of the selected messages in the order
  of the selection; on the recycle bin the selected rows read permanently-deleted = 1 and
  the purge is called instead, with the same ids. When \<open>setBatchMessagesRestored\<close>
  succeeds, the selected rows read 0 in both flags, and the restore from the bin is called
  with the ids of the selected messages.
\<close>

theorem batch_delete_restore_flags:
  assumes "cache_ok m"
  shows "(m_selectedItem m \<noteq> Some Bin \<and> setBatchMessagesDeleted oc messages m = Some (True, m') \<longrightarrow>
        (\<forall>x \<in> set messages. 0 \<le> fst x \<and> fst x < rowCount m \<longrightarrow>
           data_at m' (fst x) MSG_DB_DELETED_INDEX EditRole = Value 1 \<and>
           data_at m' (fst x) MSG_DB_PDELETED_INDEX EditRole =
             data_at m (fst x) MSG_DB_PDELETED_INDEX EditRole) \<and>
        calls m' = calls m @
           map (cache_write m MSG_DB_DELETED_INDEX (Value 1)) messages @
           [OnBeforeMessagesDelete (selected_ids m messages),
            DeleteOrRestoreMessagesToFromBin (selected_ids m messages) True,
            OnAfterMessagesDelete (selected_ids m messages)]) \<and>
     (m_selectedItem m = Some Bin \<and> setBatchMessagesDeleted oc messages m = Some (True, m') \<longrightarrow>
        (\<forall>x \<in> set messages. 0 \<le> fst x \<and> fst x < rowCount m \<longrightarrow>
           data_at m' (fst x) MSG_DB_PDELETED_INDEX EditRole = Value 1) \<and>
        calls m' = calls m @
           map (cache_write m MSG_DB_PDELETED_INDEX (Value 1)) messages @
           [OnBeforeMessagesDelete (selected_ids m messages),
            PermanentlyDeleteMessages (selected_ids m messages),
            OnAfterMessagesDelete (selected_ids m messages)]) \<and>
     (setBatchMessagesRestored oc messages m = Some (True, m') \<longrightarrow>
        (\<forall>x \<in> set messages. 0 \<le> fst x \<and> fst x < rowCount m \<longrightarrow>
           data_at m' (fst x) MSG_DB_DELETED_INDEX EditRole = Value 0 \<and>
           data_at m' (fst x) MSG_DB_PDELETED_INDEX EditRole = Value 0) \<and>
        calls m' = calls m @
           concat (map (\<lambda>x. [cache_write m MSG_DB_PDELETED_INDEX (Value 0) x,
                              cache_write m MSG_DB_DELETED_INDEX (Value 0) x]) messages) @
           [OnBeforeMessagesRestoredFromBin (selected_ids m messages),
            DeleteOrRestoreMessagesToFromBin (selected_ids m messages) False,
            OnAfterMessagesRestoredFromBin (selected_ids m messages)])"
proof (intro conjI impI)
  assume a: "m_selectedItem m \<noteq> Some Bin \<and> setBatchMessagesDeleted oc messages m = Some (True, m')"
  obtain ids m1 where c: "collect_deleted messages [] m = (ids, m1)"
    by (cases "collect_deleted messages [] m")
  note fr = collect_deleted_frame[OF c, unfolded only_cache_writes_def]
  note ch = collect_deleted_cache[OF assms c]
  have sel: "m_selectedItem m1 \<noteq> Some Bin" using a fr by simp
  from a c sel have
    "hook_persist_hook oc (OnBeforeMessagesDelete ids)
       (DeleteOrRestoreMessagesToFromBin ids True) (OnAfterMessagesDelete ids) m1 = Some (True, m')"
    by (simp add: setBatchMessagesDeleted_def)
  from hook_persist_hook_True[OF this] have m': "m' =
    emit (OnAfterMessagesDelete ids) (emit (DeleteOrRestoreMessagesToFromBin ids True)
      (emit (OnBeforeMessagesDelete ids) m1))" by simp
  have rc: "rowCount m' = rowCount m" unfolding m' using fr by (simp add: rowCount_def)
  have nb: "\<not> is_RecycleBin (m_selectedItem m)" using a by (simp add: is_RecycleBin_def)
  let ?P = "\<lambda>x. data_at m' (fst x) MSG_DB_DELETED_INDEX EditRole = Value 1 \<and>
           data_at m' (fst x) MSG_DB_PDELETED_INDEX EditRole =
             data_at m (fst x) MSG_DB_PDELETED_INDEX EditRole"
  show "\<forall>x \<in> set messages. 0 \<le> fst x \<and> fst x < rowCount m \<longrightarrow>
           data_at m' (fst x) MSG_DB_DELETED_INDEX EditRole = Value 1 \<and>
           data_at m' (fst x) MSG_DB_PDELETED_INDEX EditRole =
             data_at m (fst x) MSG_DB_PDELETED_INDEX EditRole"
  proof (intro ballI impI)
    fix x assume x: "x \<in> set messages" "0 \<le> fst x \<and> fst x < rowCount m"
    then have "fst x \<in> fst ` set messages" by simp
    with x(2) ch nb show "?P x"
      by (simp add: data_at_valid rc) (simp add: m')
  qed
  show "calls m' = calls m @
           map (cache_write m MSG_DB_DELETED_INDEX (Value 1)) messages @
           [OnBeforeMessagesDelete (selected_ids m messages),
            DeleteOrRestoreMessagesToFromBin (selected_ids m messages) True,
            OnAfterMessagesDelete (selected_ids m messages)]"
    using collect_deleted_calls[OF assms c] nb unfolding m' by simp
next
  assume a: "m_selectedItem m = Some Bin \<and> setBatchMessagesDeleted oc messages m = Some (True, m')"
  obtain ids m1 where c: "collect_deleted messages [] m = (ids, m1)"
    by (cases "collect_deleted messages [] m")
  note fr = collect_deleted_frame[OF c, unfolded only_cache_writes_def]
  note ch = collect_deleted_cache[OF assms c]
  have sel: "m_selectedItem m1 = Some Bin" using a fr by simp
  from a c sel have
    "hook_persist_hook oc (OnBeforeMessagesDelete ids)
       (PermanentlyDeleteMessages ids) (OnAfterMessagesDelete ids) m1 = Some (True, m')"
    by (simp add: setBatchMessagesDeleted_def)
  from hook_persist_hook_True[OF this] have m': "m' =
    emit (OnAfterMessagesDelete ids) (emit (PermanentlyDeleteMessages ids)
      (emit (OnBeforeMessagesDelete ids) m1))" by simp
  have rc: "rowCount m' = rowCount m" unfolding m' using fr by (simp add: rowCount_def)
  have nb: "is_RecycleBin (m_selectedItem m)" using a by (simp add: is_RecycleBin_def)
  let ?P = "\<lambda>x. data_at m' (fst x) MSG_DB_PDELETED_INDEX EditRole = Value 1"
  show "\<forall>x \<in> set messages. 0 \<le> fst x \<and> fst x < rowCount m \<longrightarrow>
           data_at m' (fst x) MSG_DB_PDELETED_INDEX EditRole = Value 1"
  proof (intro ballI impI)
    fix x assume x: "x \<in> set messages" "0 \<le> fst x \<and> fst x < rowCount m"
    then have "fst x \<in> fst ` set messages" by simp
    with x(2) ch nb show "?P x"
      by (simp add: data_at_valid rc) (simp add: m')
  qed
  show "calls m' = calls m @
           map (cache_write m MSG_DB_PDELETED_INDEX (Value 1)) messages @
           [OnBeforeMessagesDelete (selected_ids m messages),
            PermanentlyDeleteMessages (selected_ids m messages),
            OnAfterMessagesDelete (selected_ids m messages)]"
    using collect_deleted_calls[OF assms c] nb unfolding m' by simp
next
  assume a: "setBatchMessagesRestored oc messages m = Some (True, m')"
  obtain ids m1 where c: "collect_restored messages [] m = (ids, m1)"
    by (cases "collect_restored messages [] m")
  note fr = collect_restored_frame[OF c, unfolded only_cache_writes_def]
  note ch = collect_restored_cache[OF assms c]
  from a c have
    "hook_persist_hook oc (OnBeforeMessagesRestoredFromBin ids)
       (DeleteOrRestoreMessagesToFromBin ids False) (OnAfterMessagesRestoredFromBin ids) m1
       = Some (True, m')"
    by (simp add: setBatchMessagesRestored_def)
  from hook_persist_hook_True[OF this] have m': "m' =
    emit (OnAfterMessagesRestoredFromBin ids) (emit (DeleteOrRestoreMessagesToFromBin ids False)
      (emit (OnBeforeMessagesRestoredFromBin ids) m1))" by simp
  have rc: "rowCount m' = rowCount m" unfolding m' using fr by (simp add: rowCount_def)
  let ?P = "\<lambda>x. data_at m' (fst x) MSG_DB_DELETED_INDEX EditRole = Value 0 \<and>
           data_at m' (fst x) MSG_DB_PDELETED_INDEX EditRole = Value 0"
  show "\<forall>x \<in> set messages. 0 \<le> fst x \<and> fst x < rowCount m \<longrightarrow>
           data_at m' (fst x) MSG_DB_DELETED_INDEX EditRole = Value 0 \<and>
           data_at m' (fst x) MSG_DB_PDELETED_INDEX EditRole = Value 0"
  proof (intro ballI impI)
    fix x assume x: "x \<in> set messages" "0 \<le> fst x \<and> fst x < rowCount m"
    then have "fst x \<in> fst ` set messages" by simp
    with x(2) ch show "?P x"
      by (simp add: data_at_valid rc) (simp add: m')
  qed
  show "calls m' = calls m @
           concat (map (\<lambda>x. [cache_write m MSG_DB_PDELETED_INDEX (Value 0) x,
                              cache_write m MSG_DB_DELETED_INDEX (Value 0) x]) messages) @
           [OnBeforeMessagesRestoredFromBin (selected_ids m messages),
            DeleteOrRestoreMessagesToFromBin (selected_ids m messages) False,
            OnAfterMessagesRestoredFromBin (selected_ids m messages)]"
    using collect_restored_calls[OF assms c] unfolding m' by simp
qed

text \<open>
  Claim C4, amended. When the before-hook rejects, the batch operations
  (\<open>setBatchMessagesRead\<close>, \<open>switchBatchMessageImportance\<close>, \<open>setBatchMessagesDeleted\<close>,
  \<open>setBatchMessagesRestored\<close>) have written the cache for every selected row before the
  hook was called, make no database call, report failure and leave the cache writes in
  place. The single-row operations \<open>setMessageRead\<close> (when the status differs) and
  \<open>switchMessageImportance\<close> call the before-hook first: on rejection they report failure
  with the cache untouched.
\<close>

theorem before_hook_rejection:
  assumes "cache_ok m" "m_selectedItem m = Some item" "\<not> before_ok oc"
  shows
   "(\<exists>m' ids ws. setBatchMessagesRead oc messages read m = Some (False, m') \<and>
        calls m' = calls m @ ws @ [OnBeforeSetMessagesRead ids read] \<and>
        (\<forall>e \<in> set ws. is_cache_write e) \<and> length ws = length messages \<and>
        (\<forall>x \<in> set messages. 0 \<le> fst x \<and> fst x < rowCount m \<longrightarrow>
           data_at m' (fst x) MSG_DB_READ_INDEX EditRole = Value (read_int read))) \<and>
    (distinct (map fst messages) \<longrightarrow>
      (\<exists>m' sts ws. switchBatchMessageImportance oc messages m = Some (False, m') \<and>
        calls m' = calls m @ ws @ [OnBeforeSwitchMessageImportance sts] \<and>
        (\<forall>e \<in> set ws. is_cache_write e) \<and> length ws = length messages \<and>
        (\<forall>x \<in> set messages. 0 \<le> fst x \<and> fst x < rowCount m \<longrightarrow>
           data_at m' (fst x) MSG_DB_IMPORTANT_INDEX EditRole =
             Value (importance_int (flip_importance (messageImportance m (fst x))))))) \<and>
    (\<exists>m' ids ws. setBatchMessagesDeleted oc messages m = Some (False, m') \<and>
        calls m' = calls m @ ws @ [OnBeforeMessagesDelete ids] \<and>
        (\<forall>e \<in> set ws. is_cache_write e) \<and> length ws = length messages \<and>
        (\<forall>x \<in> set messages. 0 \<le> fst x \<and> fst x < rowCount m \<longrightarrow>
           data_at m' (fst x)
             (if item = Bin then MSG_DB_PDELETED_INDEX else MSG_DB_DELETED_INDEX) EditRole
             = Value 1)) \<and>
    (\<exists>m' ids ws. setBatchMessagesRestored oc messages m = Some (False, m') \<and>
        calls m' = calls m @ ws @ [OnBeforeMessagesRestoredFromBin ids] \<and>
        (\<forall>e \<in> set ws. is_cache_write e) \<and> length ws = 2 * length messages \<and>
        (\<forall>x \<in> set messages. 0 \<le> fst x \<and> fst x < rowCount m \<longrightarrow>
           data_at m' (fst x) MSG_DB_DELETED_INDEX EditRole = Value 0 \<and>
           data_at m' (fst x) MSG_DB_PDELETED_INDEX EditRole = Value 0)) \<and>
    (toInt (data_at m row_index MSG_DB_READ_INDEX EditRole) \<noteq> read_int read \<longrightarrow>
      setMessageRead oc row_index read m =
         Some (False, m\<lparr>calls := calls m @
           [OnBeforeSetMessagesRead [m_id (messageAt m row_index)] read]\<rparr>)) \<and>
    (\<exists>pair. switchMessageImportance oc row_index m =
         Some (False, m\<lparr>calls := calls m @ [OnBeforeSwitchMessageImportance [pair]]\<rparr>))"
proof (intro conjI impI)
  obtain ids m1 where c: "collect_read read messages [] m = (ids, m1)"
    by (cases "collect_read read messages [] m")
  note fr = collect_read_frame[OF c, unfolded only_cache_writes_def]
  note ch = collect_read_cache[OF assms(1) c]
  have sel: "m_selectedItem m1 = Some item" using fr assms(2) by simp
  let ?m' = "emit (OnBeforeSetMessagesRead ids read) m1"
  have res: "setBatchMessagesRead oc messages read m = Some (False, ?m')"
    by (simp add: setBatchMessagesRead_def c hook_persist_hook_reject[OF sel assms(3)])
  have rc: "rowCount m1 = rowCount m" using fr by (simp add: rowCount_def)
  have rd: "\<forall>x \<in> set messages. 0 \<le> fst x \<and> fst x < rowCount m \<longrightarrow>
           data_at ?m' (fst x) MSG_DB_READ_INDEX EditRole = Value (read_int read)"
  proof (intro ballI impI)
    fix x assume x: "x \<in> set messages" "0 \<le> fst x \<and> fst x < rowCount m"
    then have "fst x \<in> fst ` set messages" by simp
    with x(2) ch show "data_at ?m' (fst x) MSG_DB_READ_INDEX EditRole = Value (read_int read)"
      by (simp add: data_at_valid rc)
  qed
  from fr obtain ws where ws: "calls m1 = calls m @ ws" "\<forall>e \<in> set ws. is_cache_write e"
    "length ws = length messages" by blast
  show "\<exists>m' ids ws. setBatchMessagesRead oc messages read m = Some (False, m') \<and>
        calls m' = calls m @ ws @ [OnBeforeSetMessagesRead ids read] \<and>
        (\<forall>e \<in> set ws. is_cache_write e) \<and> length ws = length messages \<and>
        (\<forall>x \<in> set messages. 0 \<le> fst x \<and> fst x < rowCount m \<longrightarrow>
           data_at m' (fst x) MSG_DB_READ_INDEX EditRole = Value (read_int read))"
    using res rd ws by (intro exI[of _ ?m'] exI[of _ ids] exI[of _ ws]) simp
next
  assume dist: "distinct (map fst messages)"
  obtain sts m1 where c: "collect_importance messages [] m = (sts, m1)"
    by (cases "collect_importance messages [] m")
  note fr = collect_importance_frame[OF c, unfolded only_cache_writes_def]
  note ch = collect_importance_cache[OF assms(1) dist c]
  have sel: "m_selectedItem m1 = Some item" using fr assms(2) by simp
  let ?m' = "emit (OnBeforeSwitchMessageImportance sts) m1"
  have res: "switchBatchMessageImportance oc messages m = Some (False, ?m')"
    by (simp add: switchBatchMessageImportance_def c hook_persist_hook_reject[OF sel assms(3)])
  have rc: "rowCount m1 = rowCount m" using fr by (simp add: rowCount_def)
  have rd: "\<forall>x \<in> set messages. 0 \<le> fst x \<and> fst x < rowCount m \<longrightarrow>
           data_at ?m' (fst x) MSG_DB_IMPORTANT_INDEX EditRole =
             Value (importance_int (flip_importance (messageImportance m (fst x))))"
  proof (intro ballI impI)
    fix x assume x: "x \<in> set messages" "0 \<le> fst x \<and> fst x < rowCount m"
    then have "fst x \<in> fst ` set messages" by simp
    with x(2) ch show "data_at ?m' (fst x) MSG_DB_IMPORTANT_INDEX EditRole =
             Value (importance_int (flip_importance (messageImportance m (fst x))))"
      by (simp add: data_at_valid rc)
  qed
  from fr obtain ws where ws: "calls m1 = calls m @ ws" "\<forall>e \<in> set ws. is_cache_write e"
    "length ws = length messages" by blast
  show "\<exists>m' sts ws. switchBatchMessageImportance oc messages m = Some (False, m') \<and>
        calls m' = calls m @ ws @ [OnBeforeSwitchMessageImportance sts] \<and>
        (\<forall>e \<in> set ws. is_cache_write e) \<and> length ws = length messages \<and>
        (\<forall>x \<in> set messages. 0 \<le> fst x \<and> fst x < rowCount m \<longrightarrow>
           data_at m' (fst x) MSG_DB_IMPORTANT_INDEX EditRole =
             Value (importance_int (flip_importance (messageImportance m (fst x)))))"
    using res rd ws by (intro exI[of _ ?m'] exI[of _ sts] exI[of _ ws]) simp
next
  obtain ids m1 where c: "collect_deleted messages [] m = (ids, m1)"
    by (cases "collect_deleted messages [] m")
  note fr = collect_deleted_frame[OF c, unfolded only_cache_writes_def]
  note ch = collect_deleted_cache[OF assms(1) c]
  have sel: "m_selectedItem m1 = Some item" using fr assms(2) by simp
  let ?m' = "emit (OnBeforeMessagesDelete ids) m1"
  have res: "setBatchMessagesDeleted oc messages m = Some (False, ?m')"
    by (simp add: setBatchMessagesDeleted_def c hook_persist_hook_reject[OF sel assms(3)])
  have rc: "rowCount m1 = rowCount m" using fr by (simp add: rowCount_def)
  have bin: "is_RecycleBin (m_selectedItem m) \<longleftrightarrow> item = Bin"
    using assms(2) by (simp add: is_RecycleBin_def)
  have rd: "\<forall>x \<in> set messages. 0 \<le> fst x \<and> fst x < rowCount m \<longrightarrow>
           data_at ?m' (fst x)
             (if item = Bin then MSG_DB_PDELETED_INDEX else MSG_DB_DELETED_INDEX) EditRole
             = Value 1"
  proof (intro ballI impI)
    fix x assume x: "x \<in> set messages" "0 \<le> fst x \<and> fst x < rowCount m"
    then have "fst x \<in> fst ` set messages" by simp
    with x(2) ch bin show "data_at ?m' (fst x)
             (if item = Bin then MSG_DB_PDELETED_INDEX else MSG_DB_DELETED_INDEX) EditRole
             = Value 1"
      by (simp add: data_at_valid rc)
  qed
  from fr obtain ws where ws: "calls m1 = calls m @ ws" "\<forall>e \<in> set ws. is_cache_write e"
    "length ws = length messages" by blast
  show "\<exists>m' ids ws. setBatchMessagesDeleted oc messages m = Some (False, m') \<and>
        calls m' = calls m @ ws @ [OnBeforeMessagesDelete ids] \<and>
        (\<forall>e \<in> set ws. is_cache_write e) \<and> length ws = length messages \<and>
        (\<forall>x \<in> set messages. 0 \<le> fst x \<and> fst x < rowCount m \<longrightarrow>
           data_at m' (fst x)
             (if item = Bin then MSG_DB_PDELETED_INDEX else MSG_DB_DELETED_INDEX) EditRole
             = Value 1)"
    using res rd ws by (intro exI[of _ ?m'] exI[of _ ids] exI[of _ ws]) simp
next
  obtain ids m1 where c: "collect_restored messages [] m = (ids, m1)"
    by (cases "collect_restored messages [] m")
  note fr = collect_restored_frame[OF c, unfolded only_cache_writes_def]
  note ch = collect_restored_cache[OF assms(1) c]
  have sel: "m_selectedItem m1 = Some item" using fr assms(2) by simp
  let ?m' = "emit (OnBeforeMessagesRestoredFromBin ids) m1"
  have res: "setBatchMessagesRestored oc messages m = Some (False, ?m')"
    by (simp add: setBatchMessagesRestored_def c hook_persist_hook_reject[OF sel assms(3)])
  have rc: "rowCount m1 = rowCount m" using fr by (simp add: rowCount_def)
  have rd: "\<forall>x \<in> set messages. 0 \<le> fst x \<and> fst x < rowCount m \<longrightarrow>
           data_at ?m' (fst x) MSG_DB_DELETED_INDEX EditRole = Value 0 \<and>
           data_at ?m' (fst x) MSG_DB_PDELETED_INDEX EditRole = Value 0"
  proof (intro ballI impI)
    fix x assume x: "x \<in> set messages" "0 \<le> fst x \<and> fst x < rowCount m"
    then have "fst x \<in> fst ` set messages" by simp
    with x(2) ch show "data_at ?m' (fst x) MSG_DB_DELETED_INDEX EditRole = Value 0 \<and>
           data_at ?m' (fst x) MSG_DB_PDELETED_INDEX EditRole = Value 0"
      by (simp add: data_at_valid rc)
  qed
  from fr obtain ws where ws: "calls m1 = calls m @ ws" "\<forall>e \<in> set ws. is_cache_write e"
    "length ws = 2 * length messages" by blast
  show "\<exists>m' ids ws. setBatchMessagesRestored oc messages m = Some (False, m') \<and>
        calls m' = calls m @ ws @ [OnBeforeMessagesRestoredFromBin ids] \<and>
        (\<forall>e \<in> set ws. is_cache_write e) \<and> length ws = 2 * length messages \<and>
        (\<forall>x \<in> set messages. 0 \<le> fst x \<and> fst x < rowCount m \<longrightarrow>
           data_at m' (fst x) MSG_DB_DELETED_INDEX EditRole = Value 0 \<and>
           data_at m' (fst x) MSG_DB_PDELETED_INDEX EditRole = Value 0)"
    using res rd ws by (intro exI[of _ ?m'] exI[of _ ids] exI[of _ ws]) simp
next
  assume "toInt (data_at m row_index MSG_DB_READ_INDEX EditRole) \<noteq> read_int read"
  then show "setMessageRead oc row_index read m =
         Some (False, m\<lparr>calls := calls m @
           [OnBeforeSetMessagesRead [m_id (messageAt m row_index)] read]\<rparr>)"
    using assms(2,3) by (simp add: setMessageRead_def Let_def emit_def)
next
  show "\<exists>pair. switchMessageImportance oc row_index m =
         Some (False, m\<lparr>calls := calls m @ [OnBeforeSwitchMessageImportance [pair]]\<rparr>)"
    using assms(2,3) by (simp add: switchMessageImportance_def Let_def emit_def) blast
qed

lemma cache_ok_example: "cache_ok example_model"
  by (simp add: cache_ok_def example_model_def)

lemma rowCount_example: "rowCount example_model = 2"
  by (simp add: rowCount_def example_model_def)

lemma data_example_uncached:
  "data example_model (r, c) EditRole = QSqlQueryModel_data example_model (r, c)"
  by (simp add: data_def cache_containsData_def example_model_def)

lemma live_example:
  "QSqlQueryModel_data example_model (0, MSG_DB_ID_INDEX) = Value 7"
  "QSqlQueryModel_data example_model (1, MSG_DB_ID_INDEX) = Value 9"
  "QSqlQueryModel_data example_model (0, MSG_DB_READ_INDEX) = Value 0"
  "QSqlQueryModel_data example_model (0, MSG_DB_DELETED_INDEX) = Value 0"
  "QSqlQueryModel_data example_model (0, MSG_DB_PDELETED_INDEX) = Value 0"
  by (simp_all add: QSqlQueryModel_data_def rowCount_example rec_value_def msg_columns)
     (simp_all add: example_model_def)



text \<open>
  Claim C4 as stated fails for \<open>setMessageRead\<close>: with a rejecting before-hook the cache
  has no entry for row 0 afterwards and the read cell still reads 0.
\<close>

theorem single_read_rejected_leaves_cache:
  "setMessageRead rejecting 0 Read example_model =
     Some (False, example_model\<lparr>calls := [OnBeforeSetMessagesRead [7] Read]\<rparr>) \<and>
   m_cache (example_model\<lparr>calls := [OnBeforeSetMessagesRead [7] Read]\<rparr>) 0 = None \<and>
   data_at (example_model\<lparr>calls := [OnBeforeSetMessagesRead [7] Read]\<rparr>) 0
     MSG_DB_READ_INDEX EditRole = Value 0"
proof -
  have idx: "index example_model 0 MSG_DB_READ_INDEX = (0, MSG_DB_READ_INDEX)"
    by (simp add: index_def rowCount_example)
  have rd: "data_at example_model 0 MSG_DB_READ_INDEX EditRole = Value 0"
    by (simp add: data_at_def idx data_example_uncached live_example)
  have ident: "m_id (messageAt example_model 0) = 7"
    by (simp add: m_id_def messageAt_reads data_example_uncached live_example)
  have sel: "m_selectedItem example_model = Some Feeed"
    by (simp add: example_model_def)
  have "setMessageRead rejecting 0 Read example_model =
     Some (False, example_model\<lparr>calls := calls example_model @ [OnBeforeSetMessagesRead [7] Read]\<rparr>)"
    by (simp add: setMessageRead_def rd ident sel Let_def emit_def rejecting_def)
  moreover have "calls example_model = []" by (simp add: example_model_def)
  moreover have "m_cache (example_model\<lparr>calls := [OnBeforeSetMessagesRead [7] Read]\<rparr>) 0 = None"
    by (simp add: example_model_def)
  moreover have "data_at (example_model\<lparr>calls := [OnBeforeSetMessagesRead [7] Read]\<rparr>) 0
     MSG_DB_READ_INDEX EditRole = Value 0"
    using rd data_emit[of "OnBeforeSetMessagesRead [7] Read" example_model]
      index_emit[of "OnBeforeSetMessagesRead [7] Read" example_model]
    by (simp add: data_at_def emit_def \<open>calls example_model = []\<close>)
  ultimately show ?thesis by simp
qed

lemma hook_persist_hook_accept:
  "m_selectedItem m = Some item \<Longrightarrow> before_ok oc \<Longrightarrow> db_ok oc \<Longrightarrow> after_ok oc \<Longrightarrow>
     hook_persist_hook oc b d a m = Some (True, emit a (emit d (emit b m)))"
  by (simp add: hook_persist_hook_def Let_def)

lemma batch_accepted:
  assumes "m_selectedItem m = Some item" "before_ok oc" "db_ok oc" "after_ok oc"
  shows "\<exists>m'. setBatchMessagesDeleted oc messages m = Some (True, m')"
    and "\<exists>m'. setBatchMessagesRestored oc messages m = Some (True, m')"
proof -
  obtain ids m1 where c: "collect_deleted messages [] m = (ids, m1)"
    by (cases "collect_deleted messages [] m")
  have "m_selectedItem m1 = Some item"
    using collect_deleted_frame[OF c] assms(1) by (simp add: only_cache_writes_def)
  then show "\<exists>m'. setBatchMessagesDeleted oc messages m = Some (True, m')"
    using assms(2-4) by (simp add: setBatchMessagesDeleted_def c hook_persist_hook_accept)
  obtain ids2 m2 where c2: "collect_restored messages [] m = (ids2, m2)"
    by (cases "collect_restored messages [] m")
  have "m_selectedItem m2 = Some item"
    using collect_restored_frame[OF c2] assms(1) by (simp add: only_cache_writes_def)
  then show "\<exists>m'. setBatchMessagesRestored oc messages m = Some (True, m')"
    using assms(2-4) by (simp add: setBatchMessagesRestored_def c2 hook_persist_hook_accept)
qed

lemma example_bin_facts:
  "cache_ok example_bin_model" "rowCount example_bin_model = 2"
  "m_selectedItem example_bin_model = Some Bin"
  by (simp_all add: example_bin_model_def cache_ok_def rowCount_def example_model_def)

lemma example_facts:
  "m_selectedItem example_model = Some Feeed" "before_ok accepting" "db_ok accepting"
  "after_ok accepting" "\<not> before_ok rejecting"
  by (simp_all add: example_model_def accepting_def rejecting_def)

lemma example_binned_facts:
  "cache_ok example_binned_model" "rowCount example_binned_model = 2"
  "m_selectedItem example_binned_model = Some Bin"
  "data_at example_binned_model 0 MSG_DB_DELETED_INDEX EditRole = Value 1"
  "data_at example_binned_model 0 MSG_DB_PDELETED_INDEX EditRole = Value 1"
  "data_at example_binned_model 1 MSG_DB_DELETED_INDEX EditRole = Value 1"
  by (simp_all add: example_binned_model_def cache_ok_def rowCount_def data_at_def index_def
      data_def cache_containsData_def cache_data_def cache_record_def rec_value_def
      QSqlQueryModel_data_def msg_columns)

lemma example_selection:
  "selected_ids example_model [(0, 0), (1, 0)] = [7, 9]"
  "selected_ids example_bin_model [(0, 0), (1, 0)] = [7, 9]"
  "selected_ids example_binned_model [(0, 0), (1, 0)] = [7, 9]"
  "map (cache_write example_model MSG_DB_DELETED_INDEX (Value 1)) [(0, 0), (1, 0)] =
     [CacheSetData 0 2 (Value 1), CacheSetData 1 2 (Value 1)]"
  "map (cache_write example_bin_model MSG_DB_PDELETED_INDEX (Value 1)) [(0, 0), (1, 0)] =
     [CacheSetData 0 10 (Value 1), CacheSetData 1 10 (Value 1)]"
  "concat (map (\<lambda>x. [cache_write example_binned_model MSG_DB_PDELETED_INDEX (Value 0) x,
                      cache_write example_binned_model MSG_DB_DELETED_INDEX (Value 0) x])
      [(0, 0), (1, 0)]) =
     [CacheSetData 0 10 (Value 0), CacheSetData 0 2 (Value 0),
      CacheSetData 1 10 (Value 0), CacheSetData 1 2 (Value 0)]"
  by (simp_all add: selected_ids_def cache_write_def m_id_def messageAt_reads index_def
      rowCount_def data_def cache_containsData_def cache_data_def cache_record_def
      QSqlQueryModel_data_def example_model_def example_bin_model_def
      example_binned_model_def msg_columns)
     (simp_all add: rec_value_def)

text \<open>
  Claim C9 at the examples, with both rows selected and accepting collaborators; the
  restore starts from a row that reads 1 in both flags.
\<close>

theorem batch_delete_restore_flags_witness:
  "cache_ok example_model \<and> cache_ok example_bin_model \<and> cache_ok example_binned_model \<and>
   m_selectedItem example_model \<noteq> Some Bin \<and> m_selectedItem example_bin_model = Some Bin \<and>
   (0, 0) \<in> set [(0::int, 0::int), (1, 0)] \<and> (0::int) \<le> fst (0::int, 0::int) \<and>
   fst (0::int, 0::int) < rowCount example_model \<and>
   fst (0::int, 0::int) < rowCount example_bin_model \<and>
   fst (0::int, 0::int) < rowCount example_binned_model \<and>
   (\<exists>m'. setBatchMessagesDeleted accepting [(0, 0), (1, 0)] example_model = Some (True, m') \<and>
      data_at m' 0 MSG_DB_DELETED_INDEX EditRole = Value 1 \<and>
      data_at m' 0 MSG_DB_PDELETED_INDEX EditRole = Value 0 \<and>
      calls m' =
        [CacheSetData 0 2 (Value 1), CacheSetData 1 2 (Value 1),
         OnBeforeMessagesDelete [7, 9], DeleteOrRestoreMessagesToFromBin [7, 9] True,
         OnAfterMessagesDelete [7, 9]]) \<and>
   (\<exists>m'. setBatchMessagesDeleted accepting [(0, 0), (1, 0)] example_bin_model = Some (True, m') \<and>
      data_at m' 0 MSG_DB_PDELETED_INDEX EditRole = Value 1 \<and>
      calls m' =
        [CacheSetData 0 10 (Value 1), CacheSetData 1 10 (Value 1),
         OnBeforeMessagesDelete [7, 9], PermanentlyDeleteMessages [7, 9],
         OnAfterMessagesDelete [7, 9]]) \<and>
   data_at example_binned_model 0 MSG_DB_DELETED_INDEX EditRole = Value 1 \<and>
   data_at example_binned_model 0 MSG_DB_PDELETED_INDEX EditRole = Value 1 \<and>
   (\<exists>m'. setBatchMessagesRestored accepting [(0, 0), (1, 0)] example_binned_model
            = Some (True, m') \<and>
      data_at m' 0 MSG_DB_DELETED_INDEX EditRole = Value 0 \<and>
      data_at m' 0 MSG_DB_PDELETED_INDEX EditRole = Value 0 \<and>
      calls m' =
        [CacheSetData 0 10 (Value 0), CacheSetData 0 2 (Value 0),
         CacheSetData 1 10 (Value 0), CacheSetData 1 2 (Value 0),
         OnBeforeMessagesRestoredFromBin [7, 9], DeleteOrRestoreMessagesToFromBin [7, 9] False,
         OnAfterMessagesRestoredFromBin [7, 9]])"
proof -
  have pd: "data_at example_model 0 MSG_DB_PDELETED_INDEX EditRole = Value 0"
    by (simp add: data_at_valid rowCount_example data_example_uncached live_example)
  have hyp: "m_selectedItem example_model \<noteq> Some Bin" "(0, 0) \<in> set [(0::int, 0::int), (1, 0)]"
    "(0::int) \<le> fst (0::int, 0::int)" "fst (0::int, 0::int) < rowCount example_model"
    "fst (0::int, 0::int) < rowCount example_bin_model"
    "fst (0::int, 0::int) < rowCount example_binned_model"
    by (simp_all add: example_facts rowCount_example example_bin_facts example_binned_facts)
  have c0: "calls example_model = []" "calls example_bin_model = []"
    "calls example_binned_model = []"
    by (simp_all add: example_model_def example_bin_model_def example_binned_model_def)
  obtain m1 where m1:
    "setBatchMessagesDeleted accepting [(0, 0), (1, 0)] example_model = Some (True, m1)"
    using batch_accepted(1)[OF example_facts(1-4)] by blast
  obtain m2 where m2:
    "setBatchMessagesDeleted accepting [(0, 0), (1, 0)] example_bin_model = Some (True, m2)"
    using batch_accepted(1)[OF example_bin_facts(3) example_facts(2-4)] by blast
  obtain m3 where m3:
    "setBatchMessagesRestored accepting [(0, 0), (1, 0)] example_binned_model = Some (True, m3)"
    using batch_accepted(2)[OF example_binned_facts(3) example_facts(2-4)] by blast
  note t1 = batch_delete_restore_flags[where m = example_model and oc = accepting
      and messages = "[(0, 0), (1, 0)]" and m' = m1, OF cache_ok_example,
      THEN conjunct1, rule_format, OF conjI, OF hyp(1) m1]
  note t2 = batch_delete_restore_flags[where m = example_bin_model and oc = accepting
      and messages = "[(0, 0), (1, 0)]" and m' = m2, OF example_bin_facts(1),
      THEN conjunct2, THEN conjunct1, rule_format, OF conjI, OF example_bin_facts(3) m2]
  note t3 = batch_delete_restore_flags[where m = example_binned_model and oc = accepting
      and messages = "[(0, 0), (1, 0)]" and m' = m3, OF example_binned_facts(1),
      THEN conjunct2, THEN conjunct2, rule_format, OF m3]
  have a: "data_at m1 0 MSG_DB_DELETED_INDEX EditRole = Value 1 \<and>
      data_at m1 0 MSG_DB_PDELETED_INDEX EditRole = Value 0"
    using t1[THEN conjunct1, rule_format, OF hyp(2)] hyp pd by simp
  have a': "calls m1 =
        [CacheSetData 0 2 (Value 1), CacheSetData 1 2 (Value 1),
         OnBeforeMessagesDelete [7, 9], DeleteOrRestoreMessagesToFromBin [7, 9] True,
         OnAfterMessagesDelete [7, 9]]"
    using t1[THEN conjunct2] by (simp only: example_selection c0) simp
  have b: "data_at m2 0 MSG_DB_PDELETED_INDEX EditRole = Value 1"
    using t2[THEN conjunct1, rule_format, OF hyp(2)] hyp by simp
  have b': "calls m2 =
        [CacheSetData 0 10 (Value 1), CacheSetData 1 10 (Value 1),
         OnBeforeMessagesDelete [7, 9], PermanentlyDeleteMessages [7, 9],
         OnAfterMessagesDelete [7, 9]]"
    using t2[THEN conjunct2] by (simp only: example_selection c0) simp
  have c: "data_at m3 0 MSG_DB_DELETED_INDEX EditRole = Value 0 \<and>
      data_at m3 0 MSG_DB_PDELETED_INDEX EditRole = Value 0"
    using t3[THEN conjunct1, rule_format, OF hyp(2)] hyp by simp
  have c': "calls m3 =
        [CacheSetData 0 10 (Value 0), CacheSetData 0 2 (Value 0),
         CacheSetData 1 10 (Value 0), CacheSetData 1 2 (Value 0),
         OnBeforeMessagesRestoredFromBin [7, 9], DeleteOrRestoreMessagesToFromBin [7, 9] False,
         OnAfterMessagesRestoredFromBin [7, 9]]"
    using t3[THEN conjunct2] by (simp only: example_selection c0) simp
  from a a' b b' c c' m1 m2 m3 hyp cache_ok_example example_bin_facts example_binned_facts
  show ?thesis by simp
qed

text \<open>Claim C4, amended, at the example with row 0 selected.\<close>

theorem before_hook_rejection_witness:
  "cache_ok example_model \<and> m_selectedItem example_model = Some Feeed \<and> \<not> before_ok rejecting \<and>
   distinct (map fst [(0::int, 0::int)]) \<and> (0, 0) \<in> set [(0::int, 0::int)] \<and>
   (0::int) \<le> fst (0::int, 0::int) \<and> fst (0::int, 0::int) < rowCount example_model \<and>
   toInt (data_at example_model 0 MSG_DB_READ_INDEX EditRole) \<noteq> read_int Read \<and>
   (\<exists>m'. setBatchMessagesRead rejecting [(0, 0)] Read example_model = Some (False, m') \<and>
      data_at m' 0 MSG_DB_READ_INDEX EditRole = Value 1) \<and>
   (\<exists>m'. switchBatchMessageImportance rejecting [(0, 0)] example_model = Some (False, m') \<and>
      data_at m' 0 MSG_DB_IMPORTANT_INDEX EditRole =
        Value (importance_int (flip_importance (messageImportance example_model 0)))) \<and>
   setMessageRead rejecting 0 Read example_model =
     Some (False, example_model\<lparr>calls := calls example_model @
       [OnBeforeSetMessagesRead [m_id (messageAt example_model 0)] Read]\<rparr>)"
proof -
  have hyp: "distinct (map fst [(0::int, 0::int)])" "(0, 0) \<in> set [(0::int, 0::int)]"
    "(0::int) \<le> fst (0::int, 0::int)" "fst (0::int, 0::int) < rowCount example_model"
    by (simp_all add: rowCount_example)
  have rd: "toInt (data_at example_model 0 MSG_DB_READ_INDEX EditRole) \<noteq> read_int Read"
    by (simp add: data_at_valid rowCount_example data_example_uncached live_example)
  note t = before_hook_rejection[OF cache_ok_example example_facts(1) example_facts(5),
      of "[(0, 0)]" Read 0]
  note t1 = t[THEN conjunct1]
  note t2 = t[THEN conjunct2, THEN conjunct1, rule_format, OF hyp(1)]
  note t5 = t[THEN conjunct2, THEN conjunct2, THEN conjunct2, THEN conjunct2, THEN conjunct1,
      rule_format, OF rd]
  from t1 obtain m1 where m1:
    "setBatchMessagesRead rejecting [(0, 0)] Read example_model = Some (False, m1)"
    "\<forall>x \<in> set [(0::int, 0::int)]. 0 \<le> fst x \<and> fst x < rowCount example_model \<longrightarrow>
       data_at m1 (fst x) MSG_DB_READ_INDEX EditRole = Value (read_int Read)"
    by (elim exE conjE)
  from t2 obtain m2 where m2:
    "switchBatchMessageImportance rejecting [(0, 0)] example_model = Some (False, m2)"
    "\<forall>x \<in> set [(0::int, 0::int)]. 0 \<le> fst x \<and> fst x < rowCount example_model \<longrightarrow>
       data_at m2 (fst x) MSG_DB_IMPORTANT_INDEX EditRole =
         Value (importance_int (flip_importance (messageImportance example_model (fst x))))"
    by (elim exE conjE)
  note s = t5
  from m1(2) hyp have "data_at m1 0 MSG_DB_READ_INDEX EditRole = Value 1" by simp
  moreover from m2(2) hyp have "data_at m2 0 MSG_DB_IMPORTANT_INDEX EditRole =
        Value (importance_int (flip_importance (messageImportance example_model 0)))" by simp
  ultimately show ?thesis
    using m1(1) m2(1) s rd hyp cache_ok_example example_facts by simp
qed

text \<open>Claim C10 at the example: id 9 is on row 1, id 8 on no row.\<close>

theorem lookup_by_id_writes_cache_only_witness:
  "cache_ok example_model \<and>
   (\<exists>i. 0 \<le> i \<and> i < rowCount example_model \<and> messageId example_model i = 9) \<and>
   fst (setMessageReadById 9 Read example_model) \<and>
   (\<forall>r c. data (snd (setMessageReadById 9 Read example_model)) (r, c) EditRole =
        (if r = 1 \<and> c = MSG_DB_READ_INDEX then Value 1 else data example_model (r, c) EditRole)) \<and>
   \<not> fst (setMessageImportantById 8 Important example_model) \<and>
   snd (setMessageImportantById 8 Important example_model) = example_model"
proof -
  have id0: "messageId example_model 0 = 7" and id1: "messageId example_model 1 = 9"
    by (simp_all add: messageId_def data_at_valid rowCount_example data_example_uncached
        live_example)
  have ex: "\<exists>i. 0 \<le> i \<and> i < rowCount example_model \<and> messageId example_model i = 9"
    using id1 by (intro exI[of _ 1]) (simp add: rowCount_example)
  have only: "i = 0 \<or> i = 1" if "0 \<le> i \<and> i < rowCount example_model" for i :: int
    using that by (auto simp: rowCount_example)
  have nex: "\<not> (\<exists>i. 0 \<le> i \<and> i < rowCount example_model \<and> messageId example_model i = 8)"
    using only id0 id1 by fastforce
  note t9 = lookup_by_id_writes_cache_only[OF cache_ok_example, of 9 Read Important]
  note t8 = lookup_by_id_writes_cache_only[OF cache_ok_example, of 8 Read Important]
  from t9 ex have f: "fst (setMessageReadById 9 Read example_model)" by blast
  with t9 obtain i where i: "0 \<le> i" "i < rowCount example_model" "messageId example_model i = 9"
    "\<forall>r c. data (snd (setMessageReadById 9 Read example_model)) (r, c) EditRole =
        (if r = i \<and> c = MSG_DB_READ_INDEX then Value (read_int Read)
         else data example_model (r, c) EditRole)"
    by blast
  from only[of i] i(1-3) id0 have "i = 1" by auto
  with i(4) have rd: "\<forall>r c. data (snd (setMessageReadById 9 Read example_model)) (r, c) EditRole =
        (if r = 1 \<and> c = MSG_DB_READ_INDEX then Value 1 else data example_model (r, c) EditRole)"
    by simp
  from t8 nex have n: "\<not> fst (setMessageImportantById 8 Important example_model)" by blast
  with t8 have "snd (setMessageImportantById 8 Important example_model) = example_model" by blast
  with cache_ok_example ex f rd n show ?thesis by blast
qed


section \<open>Properties of the feed tree model\<close>


text \<open>
  Claim C3 does not hold of the code. After a failed \<open>exec\<close> the source rolls back but
  does not return, so a commit that then succeeds makes \<open>markFeedsRead\<close> and
  \<open>markFeedsDeleted\<close> report success; and after a failed commit they return the result of
  the rollback, which is success when the rollback succeeds.
\<close>

theorem markFeeds_report_success_after_failure:
  "markFeedsRead \<lparr>transaction_ok = True, prepare_ok = True, exec_ok = False,
       commit_ok = True, rollback_ok = True\<rparr> [3] 1 =
     (True, [Transaction, Prepare (UpdateRead [3]), BindValue 1, Exec, Rollback, Commit]) \<and>
   markFeedsRead \<lparr>transaction_ok = True, prepare_ok = True, exec_ok = True,
       commit_ok = False, rollback_ok = True\<rparr> [3] 1 =
     (True, [Transaction, Prepare (UpdateRead [3]), BindValue 1, Exec, Commit, Rollback]) \<and>
   markFeedsDeleted \<lparr>transaction_ok = True, prepare_ok = True, exec_ok = False,
       commit_ok = True, rollback_ok = True\<rparr> [3] 1 False =
     (True, [Transaction, Prepare (UpdateDeleted [3]), BindValue 1, Exec, Rollback, Commit]) \<and>
   markFeedsDeleted \<lparr>transaction_ok = True, prepare_ok = True, exec_ok = True,
       commit_ok = False, rollback_ok = True\<rparr> [3] 1 True =
     (True, [Transaction, Prepare (UpdateDeletedOfRead [3]), BindValue 1, Exec, Commit, Rollback])"
  by (simp add: markFeedsRead_def markFeedsDeleted_def bind_exec_commit_def)


text \<open>
  Three passes without the global tick over the example tree: the feed with the specific
  interval 3 is left out twice, then included, and its countdown is back at 3.
\<close>

lemma feedsForScheduledUpdate_three_passes:
  "fst (feedsForScheduledUpdate False example_tree) = [] \<and>
   fst (feedsForScheduledUpdate False (snd (feedsForScheduledUpdate False example_tree))) = [] \<and>
   fst (feedsForScheduledUpdate False (snd (feedsForScheduledUpdate False
          (snd (feedsForScheduledUpdate False example_tree))))) = [1] \<and>
   autoUpdateRemainingInterval (heap (snd (feedsForScheduledUpdate False
      (snd (feedsForScheduledUpdate False
          (snd (feedsForScheduledUpdate False example_tree)))))) 1) = 3"
  by (simp add: feedsForScheduledUpdate_def allFeeds_def feedsForItem_def
      getRecursiveChildren_def example_tree_def eval_nat_numeral blank_item_def
      example_feed_def Let_def)



lemma heap_notify [simp]: "heap (notify n st) = heap st"
  and allocated_notify [simp]: "allocated (notify n st) = allocated st"
  and next_ptr_notify [simp]: "next_ptr (notify n st) = next_ptr st"
  and roots_notify [simp]: "m_rootItem (notify n st) = m_rootItem st"
    "m_recycleBin (notify n st) = m_recycleBin st"
  and notifications_notify [simp]: "notifications (notify n st) = notifications st @ [n]"
  by (simp_all add: notify_def)

lemma childItems_appendChild:
  "childItems (appendChild this child h q) =
     (if q = this then childItems (h this) @ [child] else childItems (h q))"
  by (simp add: appendChild_def Let_def)

lemma parent_appendChild:
  "parent (appendChild this child h q) = (if q = child then Some this else parent (h q))"
  by (simp add: appendChild_def Let_def)

lemma appendChild_other:
  "q \<noteq> this \<Longrightarrow> q \<noteq> child \<Longrightarrow> appendChild this child h q = h q"
  by (simp add: appendChild_def Let_def)

lemma removeChild_apply:
  "removeChild this child h q =
     (if q = this then (h this)\<lparr>childItems := remove1 child (childItems (h this))\<rparr> else h q)"
  by (simp add: removeChild_def)

lemma subtree_head: "p \<in> set (subtree n h p)"
  by (cases n) simp_all

text \<open>
  Claim C5. \<open>removeItem\<close> on the invalid index reports failure and changes nothing. On an
  item with a parent it reports what the persistent deletion reported: on failure the state
  is unchanged; on success the item is taken out of its parent's children, no other item
  changes, the item and its subtree are freed, and the removal is announced by one
  begin/end pair. \<open>addCategory\<close> and \<open>addFeed\<close> report what persisting reported: on
  success the candidate is the parent's new last child with its back-reference set, nothing
  else changes and one begin/end pair announces the insertion; on failure the candidate is
  freed and the tree is unchanged.
\<close>

theorem structural_mutation_follows_persistence:
  "(removeItem removeItself_ok None st = Some (False, st)) \<and>
   (parent (heap st deleting_item) = Some parent_item \<longrightarrow>
      (\<exists>st'. removeItem removeItself_ok (Some deleting_item) st = Some (removeItself_ok, st') \<and>
         (\<not> removeItself_ok \<longrightarrow> st' = st) \<and>
         (removeItself_ok \<longrightarrow>
            childItems (heap st' parent_item) =
              remove1 deleting_item (childItems (heap st parent_item)) \<and>
            (\<forall>q. q \<noteq> parent_item \<longrightarrow> heap st' q = heap st q) \<and>
            deleting_item \<notin> allocated st' \<and>
            allocated st' =
              allocated st - set (subtree (next_ptr st) (heap st') deleting_item) \<and>
            notifications st' = notifications st @
              [BeginRemoveRows parent_item
                 (indexOf (childItems (heap st parent_item)) deleting_item),
               EndRemoveRows]))) \<and>
   (\<exists>st'. addCategory addItself_ok category parent_item st = (addItself_ok, st') \<and>
      (addItself_ok \<longrightarrow>
         childItems (heap st' parent_item) = childItems (heap st parent_item) @ [category] \<and>
         parent (heap st' category) = Some parent_item \<and>
         (\<forall>q. q \<noteq> parent_item \<and> q \<noteq> category \<longrightarrow> heap st' q = heap st q) \<and>
         allocated st' = allocated st \<and>
         notifications st' = notifications st @
           [BeginInsertRows parent_item (childCount (heap st) parent_item), EndInsertRows]) \<and>
      (\<not> addItself_ok \<longrightarrow>
         heap st' = heap st \<and> category \<notin> allocated st' \<and>
         allocated st' = allocated st - set (subtree (next_ptr st) (heap st) category) \<and>
         notifications st' = notifications st)) \<and>
   (\<exists>st'. addFeed addItself_ok feed parent_item st = (addItself_ok, st') \<and>
      (addItself_ok \<longrightarrow>
         childItems (heap st' parent_item) = childItems (heap st parent_item) @ [feed] \<and>
         parent (heap st' feed) = Some parent_item \<and>
         (\<forall>q. q \<noteq> parent_item \<and> q \<noteq> feed \<longrightarrow> heap st' q = heap st q) \<and>
         allocated st' = allocated st \<and>
         notifications st' = notifications st @
           [BeginInsertRows parent_item (childCount (heap st) parent_item), EndInsertRows]) \<and>
      (\<not> addItself_ok \<longrightarrow>
         heap st' = heap st \<and> feed \<notin> allocated st' \<and>
         allocated st' = allocated st - set (subtree (next_ptr st) (heap st) feed) \<and>
         notifications st' = notifications st))"
proof (intro conjI impI)
  show "removeItem removeItself_ok None st = Some (False, st)"
    by (simp add: removeItem_def)
next
  assume p: "parent (heap st deleting_item) = Some parent_item"
  show "\<exists>st'. removeItem removeItself_ok (Some deleting_item) st = Some (removeItself_ok, st') \<and>
         (\<not> removeItself_ok \<longrightarrow> st' = st) \<and>
         (removeItself_ok \<longrightarrow>
            childItems (heap st' parent_item) =
              remove1 deleting_item (childItems (heap st parent_item)) \<and>
            (\<forall>q. q \<noteq> parent_item \<longrightarrow> heap st' q = heap st q) \<and>
            deleting_item \<notin> allocated st' \<and>
            allocated st' =
              allocated st - set (subtree (next_ptr st) (heap st') deleting_item) \<and>
            notifications st' = notifications st @
              [BeginRemoveRows parent_item
                 (indexOf (childItems (heap st parent_item)) deleting_item),
               EndRemoveRows])"
  proof (cases removeItself_ok)
    case False
    then show ?thesis by (simp add: removeItem_def)
  next
    case True
    then show ?thesis
      using p
      by (simp add: removeItem_def Let_def delete_item_def removeChild_apply subtree_head)
  qed
next
  show "\<exists>st'. addCategory addItself_ok category parent_item st = (addItself_ok, st') \<and>
      (addItself_ok \<longrightarrow>
         childItems (heap st' parent_item) = childItems (heap st parent_item) @ [category] \<and>
         parent (heap st' category) = Some parent_item \<and>
         (\<forall>q. q \<noteq> parent_item \<and> q \<noteq> category \<longrightarrow> heap st' q = heap st q) \<and>
         allocated st' = allocated st \<and>
         notifications st' = notifications st @
           [BeginInsertRows parent_item (childCount (heap st) parent_item), EndInsertRows]) \<and>
      (\<not> addItself_ok \<longrightarrow>
         heap st' = heap st \<and> category \<notin> allocated st' \<and>
         allocated st' = allocated st - set (subtree (next_ptr st) (heap st) category) \<and>
         notifications st' = notifications st)"
    by (cases addItself_ok)
       (simp_all add: addCategory_def Let_def delete_item_def childItems_appendChild
          parent_appendChild appendChild_other subtree_head)
next
  show "\<exists>st'. addFeed addItself_ok feed parent_item st = (addItself_ok, st') \<and>
      (addItself_ok \<longrightarrow>
         childItems (heap st' parent_item) = childItems (heap st parent_item) @ [feed] \<and>
         parent (heap st' feed) = Some parent_item \<and>
         (\<forall>q. q \<noteq> parent_item \<and> q \<noteq> feed \<longrightarrow> heap st' q = heap st q) \<and>
         allocated st' = allocated st \<and>
         notifications st' = notifications st @
           [BeginInsertRows parent_item (childCount (heap st) parent_item), EndInsertRows]) \<and>
      (\<not> addItself_ok \<longrightarrow>
         heap st' = heap st \<and> feed \<notin> allocated st' \<and>
         allocated st' = allocated st - set (subtree (next_ptr st) (heap st) feed) \<and>
         notifications st' = notifications st)"
    by (cases addItself_ok)
       (simp_all add: addFeed_def Let_def delete_item_def childItems_appendChild
          parent_appendChild appendChild_other subtree_head)
qed

lemma last_remove1: "xs \<noteq> [] \<Longrightarrow> last xs \<noteq> x \<Longrightarrow> remove1 x xs \<noteq> [] \<and> last (remove1 x xs) = last xs"
  by (induction xs) (auto split: if_splits)

lemma apply_mutation_roots:
  "apply_mutation m st = Some st' \<Longrightarrow>
     m_rootItem st' = m_rootItem st \<and> m_recycleBin st' = m_recycleBin st \<and>
     next_ptr st \<le> next_ptr st'"
  by (cases m)
     (auto simp: addCategory_def addFeed_def removeItem_def reassignNodeToNewParent_def
        delete_item_def new_item_def Let_def
        split: if_splits option.splits bool.splits prod.splits)

lemma apply_mutation_keeps_bin_last:
  assumes "bin_is_last st" "m_rootItem st < next_ptr st"
    "spares_bin (m_rootItem st) (m_recycleBin st) m"
    "apply_mutation m st = Some st'"
  shows "bin_is_last st'"
proof (cases m)
  case (AddCategory ok c p)
  with assms show ?thesis
    by (auto simp: bin_is_last_def addCategory_def Let_def childItems_appendChild
        split: if_splits)
next
  case (AddFeed ok f p)
  with assms show ?thesis
    by (auto simp: bin_is_last_def addFeed_def Let_def childItems_appendChild
        split: if_splits)
next
  case (RemoveItem ok idx)
  with assms show ?thesis
    by (auto simp: bin_is_last_def removeItem_def Let_def delete_item_def removeChild_apply
        last_remove1 split: if_splits option.splits)
next
  case (ReassignNodeToNewParent n p)
  with assms show ?thesis
    by (auto simp: bin_is_last_def reassignNodeToNewParent_def Let_def childItems_appendChild
        removeChild_apply last_remove1 split: if_splits option.splits)
next
  case (NewItem content)
  with assms show ?thesis
    by (auto simp: bin_is_last_def new_item_def)
qed

lemma run_mutations_keeps_bin_last:
  "bin_is_last st \<Longrightarrow> m_rootItem st < next_ptr st \<Longrightarrow>
   \<forall>m \<in> set ms. spares_bin (m_rootItem st) (m_recycleBin st) m \<Longrightarrow>
   run_mutations ms st = Some st' \<Longrightarrow> bin_is_last st'"
proof (induction ms arbitrary: st)
  case Nil
  then show ?case by simp
next
  case (Cons m ms)
  from Cons.prems(4) obtain st1 where s1: "apply_mutation m st = Some st1"
    and r: "run_mutations ms st1 = Some st'"
    by (auto split: option.splits)
  have b1: "bin_is_last st1"
    using apply_mutation_keeps_bin_last[OF Cons.prems(1,2) _ s1] Cons.prems(3) by simp
  have n1: "m_rootItem st1 < next_ptr st1"
    using apply_mutation_roots[OF s1] Cons.prems(2) by simp
  have "\<forall>m \<in> set ms. spares_bin (m_rootItem st1) (m_recycleBin st1) m"
    using Cons.prems(3) apply_mutation_roots[OF s1] by simp
  from Cons.IH[OF b1 n1 this r] show ?case .
qed

lemma load_categories_frame:
  "load_categories crows acc st = (categories, st') \<Longrightarrow>
     m_rootItem st' = m_rootItem st \<and> m_recycleBin st' = m_recycleBin st \<and>
     next_ptr st \<le> next_ptr st'"
proof (induction crows arbitrary: acc st)
  case Nil
  then show ?case by simp
next
  case (Cons row rest)
  from Cons.prems Cons.IH show ?case
    by (fastforce simp: new_item_def split: prod.splits)
qed

lemma load_feeds_frame:
  "load_feeds frows acc st = (feeds, st') \<Longrightarrow>
     m_rootItem st' = m_rootItem st \<and> m_recycleBin st' = m_recycleBin st \<and>
     next_ptr st \<le> next_ptr st'"
proof (induction frows arbitrary: acc st)
  case Nil
  then show ?case by simp
next
  case (Cons row rest)
  from Cons.prems Cons.IH show ?case
    by (cases "fst (snd row)") (fastforce simp: new_item_def split: prod.splits)+
qed

lemma fold_delete_item_frame:
  "m_rootItem (fold delete_item ps st) = m_rootItem st \<and>
   m_recycleBin (fold delete_item ps st) = m_recycleBin st \<and>
   next_ptr (fold delete_item ps st) = next_ptr st \<and>
   heap (fold delete_item ps st) = heap st"
  by (induction ps arbitrary: st) (simp_all add: delete_item_def)

lemma loadFromDatabase_bin_last:
  assumes "loadFromDatabase category_rows feed_rows st = Some (Loaded st')"
  shows "bin_is_last st' \<and> m_rootItem st' = m_rootItem st \<and> next_ptr st \<le> next_ptr st'"
proof -
  let ?st1 = "fold delete_item (childItems (heap st (m_rootItem st))) st"
  let ?st2 = "?st1\<lparr>heap := clearChildren (m_rootItem ?st1) (heap ?st1)\<rparr>"
  from assms obtain crows frows categories st3 feeds st4 st5 st6 where
    lc: "load_categories crows [] ?st2 = (categories, st3)" and
    lf: "load_feeds frows [] st3 = (feeds, st4)" and
    ac: "assembleCategories categories st4 = Some st5" and
    af: "assembleFeeds feeds st5 = Some st6" and
    fin: "st' = st6\<lparr>heap := appendChild (m_rootItem st6) (m_recycleBin st6) (heap st6)\<rparr>"
    by (auto simp: loadFromDatabase_def Let_def split: option.splits prod.splits)
  have s5: "m_rootItem st5 = m_rootItem st4" "next_ptr st5 = next_ptr st4"
    using ac by (auto simp: assembleCategories_def)
  have s6: "m_rootItem st6 = m_rootItem st5" "next_ptr st6 = next_ptr st5"
    using af by (auto simp: assembleFeeds_def)
  have s2: "m_rootItem ?st2 = m_rootItem st" "next_ptr ?st2 = next_ptr st"
    by (simp_all add: fold_delete_item_frame)
  from load_categories_frame[OF lc] load_feeds_frame[OF lf] s2 s5 s6
  have "m_rootItem st6 = m_rootItem st" "next_ptr st \<le> next_ptr st6" by simp_all
  then show ?thesis
    unfolding fin by (simp add: bin_is_last_def childItems_appendChild)
qed

lemma FeedsModel_new_bin_last:
  assumes "FeedsModel_new category_rows feed_rows = Some (Loaded st)"
  shows "bin_is_last st \<and> m_rootItem st < next_ptr st"
proof -
  let ?st0 = "(snd (new_item root_item (snd (new_item bin_item empty_model))))
      \<lparr>m_rootItem := 1, m_recycleBin := 0\<rparr>"
  from assms have "loadFromDatabase category_rows feed_rows ?st0 = Some (Loaded st)"
    by (simp add: FeedsModel_new_def new_item_def empty_model_def)
  from loadFromDatabase_bin_last[OF this] show ?thesis
    by (simp add: new_item_def empty_model_def)
qed

lemmas load_eval =
  FeedsModel_new_def new_item_def empty_model_def loadFromDatabase_def Let_def
  clearChildren_def assembleCategories_def assembleCategories_while.simps assembleFeeds_def
  assembleCategories_for.simps removeAt_def allCategories_def categoriesForItem_def
  categoriesForItem_while.simps appendChild_def root_item_def bin_item_def
  example_category_def NO_PARENT_CATEGORY_def

lemma FeedsModel_new_empty: "FeedsModel_new (Some []) (Some []) = Some (Loaded fresh_tree)"
  by (simp add: load_eval fresh_tree_def)

lemma FeedsModel_new_tech:
  "FeedsModel_new (Some [(NO_PARENT_CATEGORY, example_category 10 ''Tech'')]) (Some [])
     = Some (Loaded tech_tree)"
  by (simp add: load_eval tech_tree_def)

text \<open>
  Claim C7 as stated fails: in the tree loaded from an empty database, a feed created and
  added under the root item ends up after the recycle bin.
\<close>

theorem feed_added_under_root_comes_after_bin:
  "FeedsModel_new (Some []) (Some []) = Some (Loaded fresh_tree) \<and>
   run_mutations [NewItem (example_feed 1 DontAutoUpdate 0 0),
                  AddFeed True 2 (m_rootItem fresh_tree)] fresh_tree \<noteq> None \<and>
   childItems (heap (the (run_mutations [NewItem (example_feed 1 DontAutoUpdate 0 0),
                  AddFeed True 2 (m_rootItem fresh_tree)] fresh_tree)) (m_rootItem fresh_tree))
     = [m_recycleBin fresh_tree, 2] \<and>
   \<not> bin_is_last (the (run_mutations [NewItem (example_feed 1 DontAutoUpdate 0 0),
                  AddFeed True 2 (m_rootItem fresh_tree)] fresh_tree))"
  by (simp add: FeedsModel_new_empty)
     (simp add: fresh_tree_def new_item_def addFeed_def Let_def notify_def appendChild_def
        bin_is_last_def)

text \<open>
  Claim C7, amended. Starting from a freshly constructed model, after any sequence of
  successful operations none of which appends under the root item or removes or moves the
  recycle bin, the recycle bin is the last child of the root item. A successful
  \<open>addCategory\<close> or \<open>addFeed\<close> under the root item makes the added item the last child.
\<close>

theorem recycle_bin_last_unless_appended_under_root:
  "(FeedsModel_new category_rows feed_rows = Some (Loaded st) \<and>
    (\<forall>m \<in> set ms. spares_bin (m_rootItem st) (m_recycleBin st) m) \<and>
    run_mutations ms st = Some st' \<longrightarrow> bin_is_last st') \<and>
   (addCategory True item (m_rootItem st) st = (True, st') \<or>
    addFeed True item (m_rootItem st) st = (True, st') \<longrightarrow>
      last (childItems (heap st' (m_rootItem st'))) = item)"
proof (intro conjI impI)
  assume a: "FeedsModel_new category_rows feed_rows = Some (Loaded st) \<and>
    (\<forall>m \<in> set ms. spares_bin (m_rootItem st) (m_recycleBin st) m) \<and>
    run_mutations ms st = Some st'"
  then have "bin_is_last st \<and> m_rootItem st < next_ptr st"
    by (intro FeedsModel_new_bin_last[of category_rows feed_rows]) simp
  with a show "bin_is_last st'"
    by (intro run_mutations_keeps_bin_last[of st ms st']) simp_all
next
  assume "addCategory True item (m_rootItem st) st = (True, st') \<or>
    addFeed True item (m_rootItem st) st = (True, st')"
  then show "last (childItems (heap st' (m_rootItem st'))) = item"
    by (auto simp: addCategory_def addFeed_def Let_def childItems_appendChild)
qed

text \<open>
  Claim C7, amended, at the tree with the category "Tech": a feed is created, added under
  "Tech" and removed again; and a feed added under the root item.
\<close>

theorem recycle_bin_last_unless_appended_under_root_witness:
  "FeedsModel_new (Some [(NO_PARENT_CATEGORY, example_category 10 ''Tech'')]) (Some [])
     = Some (Loaded tech_tree) \<and>
   spares_bin (m_rootItem tech_tree) (m_recycleBin tech_tree)
     (NewItem (example_feed 1 DontAutoUpdate 0 0)) \<and>
   spares_bin (m_rootItem tech_tree) (m_recycleBin tech_tree) (AddFeed True 3 2) \<and>
   spares_bin (m_rootItem tech_tree) (m_recycleBin tech_tree) (RemoveItem True (Some 3)) \<and>
   run_mutations example_mutations tech_tree \<noteq> None \<and>
   bin_is_last (the (run_mutations example_mutations tech_tree)) \<and>
   addFeed True 3 (m_rootItem tech_tree) tech_tree =
     (True, snd (addFeed True 3 (m_rootItem tech_tree) tech_tree)) \<and>
   last (childItems (heap (snd (addFeed True 3 (m_rootItem tech_tree) tech_tree))
          (m_rootItem (snd (addFeed True 3 (m_rootItem tech_tree) tech_tree))))) = 3"
proof -
  have sp: "\<forall>m \<in> set example_mutations.
      spares_bin (m_rootItem tech_tree) (m_recycleBin tech_tree) m"
    by (simp add: example_mutations_def tech_tree_def)
  have "run_mutations example_mutations tech_tree \<noteq> None"
    by (simp add: example_mutations_def tech_tree_def new_item_def addFeed_def removeItem_def
        Let_def notify_def appendChild_def example_feed_def blank_item_def)
  then obtain st' where r: "run_mutations example_mutations tech_tree = Some st'" by blast
  have af: "addFeed True 3 (m_rootItem tech_tree) tech_tree =
     (True, snd (addFeed True 3 (m_rootItem tech_tree) tech_tree))"
    by (simp add: addFeed_def Let_def)
  note t = recycle_bin_last_unless_appended_under_root[
      of "Some [(NO_PARENT_CATEGORY, example_category 10 ''Tech'')]" "Some []" tech_tree
         example_mutations st' 3]
  from t[THEN conjunct1] FeedsModel_new_tech sp r have "bin_is_last st'" by blast
  moreover
  note u = recycle_bin_last_unless_appended_under_root[
      of "Some []" "Some []" tech_tree "[]"
         "snd (addFeed True 3 (m_rootItem tech_tree) tech_tree)" 3]
  from u[THEN conjunct2] af
  have "last (childItems (heap (snd (addFeed True 3 (m_rootItem tech_tree) tech_tree))
          (m_rootItem (snd (addFeed True 3 (m_rootItem tech_tree) tech_tree))))) = 3"
    by blast
  moreover have "spares_bin (m_rootItem tech_tree) (m_recycleBin tech_tree)
       (NewItem (example_feed 1 DontAutoUpdate 0 0))"
    "spares_bin (m_rootItem tech_tree) (m_recycleBin tech_tree) (AddFeed True 3 2)"
    "spares_bin (m_rootItem tech_tree) (m_recycleBin tech_tree) (RemoveItem True (Some 3))"
    using sp by (simp_all add: example_mutations_def)
  ultimately show ?thesis using FeedsModel_new_tech r af by simp
qed

text \<open>Claim C5 at the example tree.\<close>

theorem structural_mutation_follows_persistence_witness:
  "parent (heap example_tree 1) = Some 0 \<and>
   removeItem False (Some 1) example_tree = Some (False, example_tree) \<and>
   (\<exists>st'. removeItem True (Some 1) example_tree = Some (True, st') \<and>
      childItems (heap st' 0) = [2, 3, 4] \<and> 1 \<notin> allocated st') \<and>
   (\<exists>st'. addCategory True 5 0 example_tree = (True, st') \<and>
      childItems (heap st' 0) = [1, 2, 3, 4, 5]) \<and>
   (\<exists>st'. addFeed False 5 0 example_tree = (False, st') \<and> heap st' = heap example_tree)"
proof -
  have p: "parent (heap example_tree 1) = Some 0"
    by (simp add: example_tree_def example_feed_def blank_item_def)
  have c: "childItems (heap example_tree 0) = [1, 2, 3, 4]"
    by (simp add: example_tree_def blank_item_def)
  note f = structural_mutation_follows_persistence[of False example_tree 1 0 True 5 5,
      THEN conjunct2, THEN conjunct1, rule_format, OF p]
  note t = structural_mutation_follows_persistence[of True example_tree 1 0 True 5 5,
      THEN conjunct2, THEN conjunct1, rule_format, OF p]
  note a = structural_mutation_follows_persistence[of True example_tree 1 0 True 5 5,
      THEN conjunct2, THEN conjunct2, THEN conjunct1]
  note b = structural_mutation_follows_persistence[of True example_tree 1 0 False 5 5,
      THEN conjunct2, THEN conjunct2, THEN conjunct2]
  from f have 1: "removeItem False (Some 1) example_tree = Some (False, example_tree)"
    by auto
  from t c have 2: "\<exists>st'. removeItem True (Some 1) example_tree = Some (True, st') \<and>
      childItems (heap st' 0) = [2, 3, 4] \<and> 1 \<notin> allocated st'"
    by auto
  from a c have 3: "\<exists>st'. addCategory True 5 0 example_tree = (True, st') \<and>
      childItems (heap st' 0) = [1, 2, 3, 4, 5]"
    by auto
  from b have 4: "\<exists>st'. addFeed False 5 0 example_tree = (False, st') \<and>
      heap st' = heap example_tree"
    by auto
  from p 1 2 3 4 show ?thesis by blast
qed

lemma item_id_appendChild [simp]: "item_id (appendChild this child h q) = item_id (h q)"
  by (simp add: appendChild_def Let_def)

lemma set_removeAt: "i < length xs \<Longrightarrow> set xs - {xs ! i} \<subseteq> set (removeAt i xs)"
proof -
  assume "i < length xs"
  then have "take i xs @ xs ! i # drop (Suc i) xs = xs"
    by (rule id_take_nth_drop[symmetric])
  then have "set xs = set (take i xs @ xs ! i # drop (Suc i) xs)" by (rule arg_cong[symmetric, of _ _ set])
  then show ?thesis by (auto simp: removeAt_def)
qed

lemma set_removeAt_subset: "set (removeAt i xs) \<subseteq> set xs"
  by (auto simp: removeAt_def dest: in_set_takeD in_set_dropD)

lemma assembleCategories_for_orphaned:
  "orphaned pid categories assignments h \<Longrightarrow>
   assembleCategories_for i categories assignments h = (categories', assignments', h') \<Longrightarrow>
   orphaned pid categories' assignments' h'"
proof (induction i categories assignments h rule: assembleCategories_for.induct)
  case (1 i categories assignments h)
  show ?case
  proof (cases "i < length categories")
    case False
    with "1.prems" show ?thesis
      by (subst (asm) assembleCategories_for.simps) (simp del: assembleCategories_for.simps)
  next
    case inside: True
    show ?thesis
    proof (cases "assignments (fst (categories ! i))")
      case None
      with inside "1.prems"(2) have
        "assembleCategories_for (i + 1) categories assignments h = (categories', assignments', h')"
        by (subst (asm) assembleCategories_for.simps) (simp del: assembleCategories_for.simps)
      from "1.IH"(1)[OF inside None "1.prems"(1) this] show ?thesis .
    next
      case (Some parent_item)
      let ?c = "snd (categories ! i)"
      let ?h1 = "appendChild parent_item ?c h"
      let ?a1 = "assignments(item_id (?h1 ?c) \<mapsto> ?c)"
      from inside Some "1.prems"(2) have run:
        "assembleCategories_for i (removeAt i categories) ?a1 ?h1 = (categories', assignments', h')"
        by (subst (asm) assembleCategories_for.simps)
           (simp add: Let_def del: assembleCategories_for.simps)
      have mem: "categories ! i \<in> set categories" using inside by simp
      from "1.prems"(1) have o: "assignments pid = None" "pid \<in> fst ` set categories"
        "\<forall>x \<in> set categories. item_id (h (snd x)) \<noteq> pid"
        by (simp_all add: orphaned_def)
      from o(1) Some have ne: "fst (categories ! i) \<noteq> pid" by auto
      from o(2) obtain x where x: "x \<in> set categories" "fst x = pid" by auto
      with ne have "x \<noteq> categories ! i" by auto
      with x(1) set_removeAt[OF inside] have "x \<in> set (removeAt i categories)" by auto
      with x(2) have a: "pid \<in> fst ` set (removeAt i categories)" by force
      from o(3) mem have "item_id (h ?c) \<noteq> pid" by blast
      then have b: "?a1 pid = None" using o(1) by simp
      from o(3) set_removeAt_subset[of i categories]
      have c: "\<forall>x \<in> set (removeAt i categories). item_id (?h1 (snd x)) \<noteq> pid" by auto
      from a b c have "orphaned pid (removeAt i categories) ?a1 ?h1"
        by (simp add: orphaned_def)
      from "1.IH"(2)[OF inside Some refl refl this run] show ?thesis .
    qed
  qed
qed

lemma assembleCategories_while_orphaned:
  assumes "orphaned pid categories assignments h"
  shows "assembleCategories_while categories assignments h = None"
proof (cases "assembleCategories_while categories assignments h")
  case None
  then show ?thesis .
next
  case (Some y)
  then have "\<not> orphaned pid categories assignments h"
  proof (rule assembleCategories_while.raw_induct[where P =
      "\<lambda>categories assignments h y. \<not> orphaned pid categories assignments h", rotated])
    fix w :: "(int \<times> ptr) list \<Rightarrow> (int \<rightharpoonup> ptr) \<Rightarrow> (ptr \<Rightarrow> RootItem) \<Rightarrow> (ptr \<Rightarrow> RootItem) option"
      and categories assignments h y
    assume ih: "\<And>c a b y. w c a b = Some y \<Longrightarrow> \<not> orphaned pid c a b"
    assume step: "(if categories \<noteq> []
      then case assembleCategories_for 0 categories assignments h of
           (categories1, assignments1, h1) \<Rightarrow> w categories1 assignments1 h1
      else Some h) = Some y"
    show "\<not> orphaned pid categories assignments h"
    proof
      assume o: "orphaned pid categories assignments h"
      then have ne: "categories \<noteq> []" by (auto simp: orphaned_def)
      obtain c1 a1 h1 where f: "assembleCategories_for 0 categories assignments h = (c1, a1, h1)"
        by (cases "assembleCategories_for 0 categories assignments h")
      with ne step have "w c1 a1 h1 = Some y" by simp
      from ih[OF this] assembleCategories_for_orphaned[OF o f] show False by simp
    qed
  qed
  with assms show ?thesis by simp
qed

lemma assembleCategories_orphan_never_returns:
  assumes "(pid, c) \<in> set categories" "pid \<noteq> NO_PARENT_CATEGORY"
    "\<forall>x \<in> set categories. item_id (heap st (snd x)) \<noteq> pid"
  shows "assembleCategories categories st = None"
proof -
  have "orphaned pid categories [NO_PARENT_CATEGORY \<mapsto> m_rootItem st] (heap st)"
    using assms by (force simp: orphaned_def)
  from assembleCategories_while_orphaned[OF this] show ?thesis
    by (simp add: assembleCategories_def)
qed

text \<open>
  On a forest the loop of \<open>assembleCategories\<close> does return, with every category of the
  list attached.
\<close>

lemma attached_appendChild_new: "attached (appendChild q c h) c"
  by (auto simp: attached_def parent_appendChild childItems_appendChild)

lemma attached_appendChild_old: "attached h c \<Longrightarrow> c' \<noteq> c \<Longrightarrow> attached (appendChild q c' h) c"
  by (auto simp: attached_def parent_appendChild childItems_appendChild)

lemma forest_like_resolvable:
  assumes "forest_like rank categories assignments h" "categories \<noteq> []"
  shows "\<exists>x \<in> set categories. assignments (fst x) \<noteq> None"
proof -
  define x where "x = arg_min_list (rank \<circ> snd) categories"
  have xin: "x \<in> set categories"
    unfolding x_def using assms(2) by (rule arg_min_list_in)
  have "(rank \<circ> snd) x = Min ((rank \<circ> snd) ` set categories)"
    unfolding x_def using assms(2) by (rule f_arg_min_list_f)
  then have xmin: "rank (snd x) \<le> rank (snd y)" if "y \<in> set categories" for y
    using that by (simp add: Min_le)
  note x = xin xmin
  show ?thesis
  proof (cases "assignments (fst x) \<noteq> None")
    case True
    with x(1) show ?thesis by blast
  next
    case False
    with assms(1) x(1) obtain y where "y \<in> set categories" "rank (snd y) < rank (snd x)"
      by (auto simp: forest_like_def)
    with x(2)[of y] show ?thesis by simp
  qed
qed

lemma distinct_removeAt: "distinct (map f xs) \<Longrightarrow> distinct (map f (removeAt i xs))"
proof -
  assume d: "distinct (map f xs)"
  have "map f (removeAt i xs) = take i (map f xs) @ drop (Suc i) (map f xs)"
    by (simp add: removeAt_def take_map drop_map)
  moreover have "distinct (take i (map f xs) @ drop (Suc i) (map f xs))"
    using d set_take_disj_set_drop_if_distinct[of "map f xs" i "Suc i"] by simp
  ultimately show ?thesis by simp
qed

lemma length_removeAt: "i < length xs \<Longrightarrow> length (removeAt i xs) = length xs - 1"
  by (simp add: removeAt_def)

lemma assembleCategories_for_forest:
  assumes "assembleCategories_for i categories assignments h = (categories', assignments', h')"
    and "forest_like rank categories assignments h"
    and "distinct (map snd categories)"
    and "\<forall>c \<in> A. attached h c"
    and "A \<inter> snd ` set categories = {}"
  shows "forest_like rank categories' assignments' h' \<and>
     distinct (map snd categories') \<and>
     set categories' \<subseteq> set categories \<and>
     length categories' \<le> length categories \<and>
     ((\<exists>j. i \<le> j \<and> j < length categories \<and> assignments (fst (categories ! j)) \<noteq> None)
        \<longrightarrow> length categories' < length categories) \<and>
     (\<forall>c \<in> A \<union> (snd ` set categories - snd ` set categories'). attached h' c)"
  using assms
proof (induction i categories assignments h arbitrary: A
    rule: assembleCategories_for.induct)
  case (1 i categories assignments h)
  note run = "1.prems"(1) and fl = "1.prems"(2) and di = "1.prems"(3)
    and at = "1.prems"(4) and dj = "1.prems"(5)
  show ?case
  proof (cases "i < length categories")
    case False
    with run have "categories' = categories" "assignments' = assignments" "h' = h"
      by (subst (asm) assembleCategories_for.simps, simp del: assembleCategories_for.simps)+
    with fl di at False show ?thesis by auto
  next
    case inside: True
    show ?thesis
    proof (cases "assignments (fst (categories ! i))")
      case None
      with inside run have r:
        "assembleCategories_for (i + 1) categories assignments h = (categories', assignments', h')"
        by (subst (asm) assembleCategories_for.simps) (simp del: assembleCategories_for.simps)
      note ih = "1.IH"(1)[OF inside None r fl di at dj]
      have "\<exists>j. i + 1 \<le> j \<and> j < length categories \<and> assignments (fst (categories ! j)) \<noteq> None"
        if "\<exists>j. i \<le> j \<and> j < length categories \<and> assignments (fst (categories ! j)) \<noteq> None"
      proof -
        from that obtain j where j: "i \<le> j" "j < length categories"
          "assignments (fst (categories ! j)) \<noteq> None" by blast
        with None have "j \<noteq> i" by auto
        with j show ?thesis by (intro exI[of _ j]) simp
      qed
      with ih show ?thesis by blast
    next
      case (Some parent_item)
      let ?c = "snd (categories ! i)"
      let ?h1 = "appendChild parent_item ?c h"
      let ?a1 = "assignments(item_id (?h1 ?c) \<mapsto> ?c)"
      let ?cs1 = "removeAt i categories"
      from inside Some run have r:
        "assembleCategories_for i ?cs1 ?a1 ?h1 = (categories', assignments', h')"
        by (subst (asm) assembleCategories_for.simps)
           (simp add: Let_def del: assembleCategories_for.simps)
      have mem: "categories ! i \<in> set categories" using inside by simp
      have sub: "set ?cs1 \<subseteq> set categories" by (rule set_removeAt_subset)
      have rest: "set categories - {categories ! i} \<subseteq> set ?cs1"
        using inside by (rule set_removeAt)
      have d1: "distinct (map snd ?cs1)" using di by (rule distinct_removeAt)
      have notin: "?c \<notin> snd ` set ?cs1"
      proof -
        let ?xs = "map snd categories"
        have il: "i < length ?xs" using inside by simp
        have eq: "take i ?xs @ ?xs ! i # drop (Suc i) ?xs = ?xs"
          using il by (rule id_take_nth_drop[symmetric])
        have "distinct (take i ?xs @ ?xs ! i # drop (Suc i) ?xs)"
          unfolding eq by (rule di)
        then have "?xs ! i \<notin> set (take i ?xs @ drop (Suc i) ?xs)"
          by auto
        moreover have "?xs ! i = ?c" using inside by simp
        ultimately show ?thesis by (simp add: removeAt_def take_map drop_map image_Un)
      qed
      have f1: "forest_like rank ?cs1 ?a1 ?h1"
        unfolding forest_like_def
      proof (intro ballI)
        fix x assume x: "x \<in> set ?cs1"
        with sub have xin: "x \<in> set categories" by blast
        show "?a1 (fst x) \<noteq> None \<or>
          (\<exists>y \<in> set ?cs1. item_id (?h1 (snd y)) = fst x \<and> rank (snd y) < rank (snd x))"
        proof (cases "assignments (fst x) \<noteq> None")
          case True
          then show ?thesis by simp
        next
          case False
          with fl xin obtain y where y: "y \<in> set categories" "item_id (h (snd y)) = fst x"
            "rank (snd y) < rank (snd x)"
            by (auto simp: forest_like_def)
          show ?thesis
          proof (cases "y = categories ! i")
            case True
            with y(2) show ?thesis by simp
          next
            case False
            with y(1) rest have "y \<in> set ?cs1" by blast
            with y(2,3) show ?thesis by auto
          qed
        qed
      qed
      let ?A1 = "insert ?c A"
      have at1: "\<forall>c \<in> ?A1. attached ?h1 c"
      proof
        fix c assume "c \<in> ?A1"
        then show "attached ?h1 c"
        proof
          assume "c = ?c"
          then show ?thesis by (simp add: attached_appendChild_new)
        next
          assume cA: "c \<in> A"
          with dj mem have "c \<noteq> ?c" by force
          with at cA show ?thesis by (intro attached_appendChild_old) auto
        qed
      qed
      have dj1: "?A1 \<inter> snd ` set ?cs1 = {}"
        using dj sub notin by auto
      note ih = "1.IH"(2)[OF inside Some refl refl r f1 d1 at1 dj1]
      have len: "length ?cs1 = length categories - 1" using inside by (rule length_removeAt)
      from ih have a: "forest_like rank categories' assignments' h'"
        and b: "distinct (map snd categories')"
        and c: "set categories' \<subseteq> set ?cs1"
        and d: "length categories' \<le> length ?cs1"
        and e: "\<forall>c \<in> ?A1 \<union> (snd ` set ?cs1 - snd ` set categories'). attached h' c"
        by blast+
      have e': "\<forall>c \<in> A \<union> (snd ` set categories - snd ` set categories'). attached h' c"
      proof
        fix p assume p: "p \<in> A \<union> (snd ` set categories - snd ` set categories')"
        show "attached h' p"
        proof (cases "p \<in> ?A1")
          case True
          with e show ?thesis by blast
        next
          case False
          with p obtain x where x: "x \<in> set categories" "snd x = p" "p \<notin> snd ` set categories'"
            by auto
          from False x(2) have "x \<noteq> categories ! i" by auto
          with x(1) rest have "x \<in> set ?cs1" by blast
          with x(2,3) e show ?thesis by force
        qed
      qed
      from a b c sub d len inside e' show ?thesis by auto
    qed
  qed
qed

lemma assembleCategories_while_forest:
  "forest_like rank categories assignments h \<Longrightarrow> distinct (map snd categories) \<Longrightarrow>
   \<forall>c \<in> A. attached h c \<Longrightarrow> A \<inter> snd ` set categories = {} \<Longrightarrow>
   \<exists>h'. assembleCategories_while categories assignments h = Some h' \<and>
        (\<forall>c \<in> A \<union> snd ` set categories. attached h' c)"
proof (induction "length categories" arbitrary: categories assignments h A rule: less_induct)
  case less
  show ?case
  proof (cases "categories = []")
    case True
    with less.prems(3) show ?thesis
      by (subst assembleCategories_while.simps) (simp del: assembleCategories_for.simps)
  next
    case False
    obtain c1 a1 h1 where f: "assembleCategories_for 0 categories assignments h = (c1, a1, h1)"
      by (cases "assembleCategories_for 0 categories assignments h")
    note inv = assembleCategories_for_forest[OF f less.prems]
    from forest_like_resolvable[OF less.prems(1) False]
    obtain x where x: "x \<in> set categories" "assignments (fst x) \<noteq> None" by blast
    then obtain j where "j < length categories" "categories ! j = x"
      by (auto simp: in_set_conv_nth)
    with x(2) have "\<exists>j. 0 \<le> j \<and> j < length categories \<and>
        assignments (fst (categories ! j)) \<noteq> None"
      by (intro exI[of _ j]) simp
    then have shorter: "length c1 < length categories"
      using inv[THEN conjunct2, THEN conjunct2, THEN conjunct2, THEN conjunct2, THEN conjunct1]
      by (rule rev_mp)
    let ?A1 = "A \<union> (snd ` set categories - snd ` set c1)"
    have fl1: "forest_like rank c1 a1 h1" using inv by (rule conjunct1)
    have d1: "distinct (map snd c1)" using inv[THEN conjunct2] by (rule conjunct1)
    have sub: "set c1 \<subseteq> set categories"
      using inv[THEN conjunct2, THEN conjunct2] by (rule conjunct1)
    have at1: "\<forall>c \<in> ?A1. attached h1 c"
      using inv[THEN conjunct2, THEN conjunct2, THEN conjunct2, THEN conjunct2]
      by (rule conjunct2)
    have dj1: "?A1 \<inter> snd ` set c1 = {}"
      using less.prems(4) sub by auto
    from less.hyps[OF shorter fl1 d1 at1 dj1]
    obtain h' where h': "assembleCategories_while c1 a1 h1 = Some h'"
      "\<forall>c \<in> ?A1 \<union> snd ` set c1. attached h' c"
      by blast
    have "assembleCategories_while categories assignments h = Some h'"
      using False f h'(1)
      by (subst assembleCategories_while.simps) (simp del: assembleCategories_for.simps)
    moreover have "\<forall>c \<in> A \<union> snd ` set categories. attached h' c"
      using h'(2) by auto
    ultimately show ?thesis by blast
  qed
qed

lemma assembleCategories_forest_returns:
  assumes "forest_like rank categories [NO_PARENT_CATEGORY \<mapsto> m_rootItem st] (heap st)"
    and "distinct (map snd categories)"
  shows "\<exists>st'. assembleCategories categories st = Some st' \<and>
     (\<forall>x \<in> set categories. attached (heap st') (snd x))"
proof -
  from assembleCategories_while_forest[OF assms, of "{}"]
  obtain h' where "assembleCategories_while categories
      [NO_PARENT_CATEGORY \<mapsto> m_rootItem st] (heap st) = Some h'"
    "\<forall>c \<in> snd ` set categories. attached h' c"
    by auto
  then show ?thesis by (simp add: assembleCategories_def)
qed

text \<open>
  Claim C2 does not hold of the code: with a single category row whose parent id 5 is the
  id of no category, the construction of the model (that is, \<open>loadFromDatabase\<close>) never
  returns.
\<close>

theorem load_with_orphan_category_never_returns:
  "FeedsModel_new (Some [(5, example_category 10 ''Tech'')]) (Some []) = None"
proof -
  have key: "assembleCategories [(5, Suc (Suc 0))] st = None"
    if "item_id (heap st (Suc (Suc 0))) = 10" for st
    using that
    by (intro assembleCategories_orphan_never_returns[of 5 "Suc (Suc 0)"])
       (simp_all add: NO_PARENT_CATEGORY_def)
  show ?thesis
    by (simp add: FeedsModel_new_def loadFromDatabase_def Let_def new_item_def empty_model_def
        root_item_def bin_item_def clearChildren_def example_category_def key)
qed


section \<open>Properties of the merge\<close>

lemma new_item_deleted_by_failed_add:
  "next_ptr st \<notin> allocated (snd (addCategory False (next_ptr st) t (snd (new_item content st))))"
  by (simp add: addCategory_def new_item_def delete_item_def subtree_head)

lemma merge_item_category_failed:
  assumes "src_checked s" "kind (src_content s) = Cattegory" "\<not> f (attempts ms)"
  shows "merge_item f t s ms = Inl (UseAfterFree (next_ptr (model ms)))"
  using assms
  by (simp add: merge_item_def new_item_def addCategory_def delete_item_def Let_def
      title_of_def subtree_head)

lemma merge_item_feed_failed:
  assumes "src_checked s" "kind (src_content s) = Feeed" "\<not> f (attempts ms)"
  shows "\<exists>ms1. merge_item f t s ms = Inr ms1 \<and> some_feed_category_error ms1 \<and>
     original_parents ms1 = original_parents ms \<and> new_parents ms1 = new_parents ms \<and>
     attempts ms1 = Suc (attempts ms)"
  using assms
  by (simp add: merge_item_def new_item_def addFeed_def delete_item_def Let_def)

lemma mergeModel_null_import:
  "mergeModel addItself None st = Inr (False, ''Invalid tree data.'', st)"
  by (simp add: mergeModel_def)

lemmas merge_eval =
  initial_merge_state_def merge_item_def new_item_def addCategory_def addFeed_def
  delete_item_def Let_def push_parents_def child_by_title_def notify_def title_of_def
  appendChild_def childCount_def tech_tree_def example_category_def example_feed_def
  blank_item_def root_item_def bin_item_def blog_source_def tech_source_def news_source_def
  import_root_def every_add_def no_add_def no_feed_add_def

text \<open>
  Two runs without a failed category: every item is added, and only the two categories are.
\<close>

lemma mergeModel_example_runs:
  "\<exists>st. mergeModel every_add (Some import_root) tech_tree =
          Inr (True, ''Import was completely successfull.'', st) \<and>
        childItems (heap st 1) = [2, 0, 3, 4] \<and> childItems (heap st 3) = [6] \<and>
        childItems (heap st 4) = [5]"
  "\<exists>st. mergeModel no_feed_add (Some import_root) tech_tree =
          Inr (False,
            ''Import successfull, but some feeds/categories were not imported due to error.'',
            st) \<and>
        childItems (heap st 1) = [2, 0, 3, 4] \<and> childItems (heap st 3) = [] \<and>
        childItems (heap st 4) = []"
  by (simp_all add: mergeModel_def merge_loop.simps merge_eval)

text \<open>
  Claim C6. When \<open>addCategory\<close> fails for the clone of a checked source category, it has
  deleted the clone; \<open>mergeModel\<close> then reads the title of the deleted clone, so the
  search for an existing category of that title, and everything the claim says happens
  after it, is not defined behaviour of the code. The rest of the children is not
  processed, and a call whose first category fails ends there.
\<close>

theorem mergeModel_reads_deleted_category:
  assumes "src_checked s" "kind (src_content s) = Cattegory" "\<not> addItself (attempts ms)"
  shows "next_ptr (model ms) \<notin> allocated (snd (addCategory (addItself (attempts ms))
            (next_ptr (model ms)) t
            (snd (new_item ((src_content s)\<lparr>childItems := []\<rparr>) (model ms))))) \<and>
     merge_item addItself t s ms = Inl (UseAfterFree (next_ptr (model ms))) \<and>
     merge_children addItself t (s # rest) ms = Inl (UseAfterFree (next_ptr (model ms))) \<and>
     (attempts ms = 0 \<longrightarrow>
        mergeModel addItself (Some (SourceItem c r (s # rest))) st =
          Inl (UseAfterFree (next_ptr st)))"
proof (intro conjI impI)
  show "next_ptr (model ms) \<notin> allocated (snd (addCategory (addItself (attempts ms))
            (next_ptr (model ms)) t
            (snd (new_item ((src_content s)\<lparr>childItems := []\<rparr>) (model ms)))))"
    using assms(3) by (simp add: new_item_deleted_by_failed_add)
  show item: "merge_item addItself t s ms = Inl (UseAfterFree (next_ptr (model ms)))"
    using assms by (rule merge_item_category_failed)
  then show "merge_children addItself t (s # rest) ms = Inl (UseAfterFree (next_ptr (model ms)))"
    by simp
  assume "attempts ms = 0"
  let ?popped = "\<lparr>model = st, original_parents = [], new_parents = [],
      some_feed_category_error = False, attempts = 0\<rparr>"
  from assms(3) \<open>attempts ms = 0\<close> have "\<not> addItself (attempts ?popped)"
    by simp
  from merge_item_category_failed[where f = addItself and s = s and ms = "?popped"
      and t = "m_rootItem st", OF assms(1,2) this]
  show "mergeModel addItself (Some (SourceItem c r (s # rest))) st =
          Inl (UseAfterFree (next_ptr st))"
    by (simp add: mergeModel_def merge_loop.simps initial_merge_state_def)
qed

text \<open>
  Claim C6 at the example: the import holds the category "Tech", the target holds a
  category "Tech" already, and the store takes nothing.
\<close>

theorem mergeModel_reads_deleted_category_witness:
  "src_checked tech_source \<and> kind (src_content tech_source) = Cattegory \<and>
   \<not> no_add (attempts (initial_merge_state tech_tree import_root)) \<and>
   attempts (initial_merge_state tech_tree import_root) = 0 \<and>
   merge_item no_add 1 tech_source (initial_merge_state tech_tree import_root) =
     Inl (UseAfterFree 3) \<and>
   mergeModel no_add (Some import_root) tech_tree = Inl (UseAfterFree 3)"
proof -
  let ?ms = "initial_merge_state tech_tree import_root"
  have h: "src_checked tech_source" "kind (src_content tech_source) = Cattegory"
    "\<not> no_add (attempts ?ms)" "attempts ?ms = 0"
    by (simp_all add: tech_source_def example_category_def root_item_def no_add_def
        initial_merge_state_def)
  have n: "next_ptr (model ?ms) = 3" "next_ptr tech_tree = 3"
    by (simp_all add: initial_merge_state_def tech_tree_def)
  note t = mergeModel_reads_deleted_category[where addItself = no_add and s = tech_source
      and ms = "?ms" and t = 1 and rest = "[news_source]" and c = True and r = root_item
      and st = tech_tree, OF h(1-3)]
  from t[THEN conjunct2, THEN conjunct1] n
  have 1: "merge_item no_add 1 tech_source ?ms = Inl (UseAfterFree 3)" by simp
  from t[THEN conjunct2, THEN conjunct2, THEN conjunct2, rule_format, OF h(4)] n
  have 2: "mergeModel no_add (Some import_root) tech_tree = Inl (UseAfterFree 3)"
    by (simp add: import_root_def)
  from h 1 2 show ?thesis by simp
qed

end
